theory Spec2Isabelle
  imports Main
begin

section \<open>Values\<close>

text \<open>
  The program reads its input with \<^verbatim>\<open>JSON.parse\<close>, so every value it handles is a JSON
  value or an object or array that the program builds from such values. An object is the
  list of its own properties in the order \<^verbatim>\<open>Object.keys\<close> enumerates them (each key once).
  The value \<^verbatim>\<open>undefined\<close> never occurs inside a JSON value; where an expression of the
  program can yield it (reading an absent property), the model has type \<open>json option\<close> and
  \<open>None\<close> stands for \<^verbatim>\<open>undefined\<close>.

  Numbers are integers here. The program never computes with a number of its input: it
  tests numbers for truthiness only (zero is falsy), and compares a loop index with a
  \<^verbatim>\<open>length\<close>.
\<close>

datatype json =
    JNull
  | JBool bool
  | JNum int
  | JStr string
  | JArr "json list"
  | JObj "(string \<times> json) list"

text \<open>An uncaught \<^verbatim>\<open>TypeError\<close> ends the run; it is the only exception the core can raise.
  \<open>ProcessExit\<close> is \<^verbatim>\<open>process.exit(1)\<close>.\<close>

datatype error = TypeError | ProcessExit

text \<open>JavaScript truthiness: \<^verbatim>\<open>null\<close>, \<^verbatim>\<open>false\<close>, \<^verbatim>\<open>0\<close> and \<^verbatim>\<open>""\<close> are falsy, every array and
  object is truthy.\<close>

fun truthy :: "json \<Rightarrow> bool" where
  "truthy JNull = False"
| "truthy (JBool b) = b"
| "truthy (JNum n) = (n \<noteq> 0)"
| "truthy (JStr s) = (s \<noteq> [])"
| "truthy (JArr xs) = True"
| "truthy (JObj kvs) = True"

fun truthy_opt :: "json option \<Rightarrow> bool" where
  "truthy_opt None = False"
| "truthy_opt (Some v) = truthy v"

text \<open>\<^verbatim>\<open>typeof v === 'object'\<close>: true of \<^verbatim>\<open>null\<close>, arrays and objects.\<close>

fun typeof_object :: "json \<Rightarrow> bool" where
  "typeof_object JNull = True"
| "typeof_object (JArr xs) = True"
| "typeof_object (JObj kvs) = True"
| "typeof_object v = False"

text \<open>\<^verbatim>\<open>Array.isArray\<close>.\<close>

fun isArray :: "json \<Rightarrow> bool" where
  "isArray (JArr xs) = True"
| "isArray v = False"

subsection \<open>Property keys of arrays and strings\<close>

definition digit_char :: "nat \<Rightarrow> char" where
  "digit_char d = ''0123456789'' ! d"

text \<open>The decimal rendering of an array index, as \<^verbatim>\<open>String(i)\<close> gives it.\<close>

fun show_nat :: "nat \<Rightarrow> string" where
  "show_nat n = (if n < 10 then [digit_char n] else show_nat (n div 10) @ [digit_char (n mod 10)])"

declare show_nat.simps [simp del]

text \<open>The own enumerable properties of a value, in the order of \<^verbatim>\<open>Object.keys\<close>: an array
  has its indices, a string its code units.\<close>

fun own_props :: "json \<Rightarrow> (string \<times> json) list" where
  "own_props (JObj kvs) = kvs"
| "own_props (JArr xs) = zip (map show_nat [0..<length xs]) xs"
| "own_props (JStr s) = zip (map show_nat [0..<length s]) (map (\<lambda>c. JStr [c]) s)"
| "own_props v = []"

text \<open>
  \<open>get_prop v key\<close> is \<^verbatim>\<open>v[key]\<close> for a value \<open>v\<close> other than \<^verbatim>\<open>null\<close>. Arrays and strings
  have \<^verbatim>\<open>length\<close> besides their indices. Properties inherited from the built-in prototypes
  (\<^verbatim>\<open>constructor\<close>, \<^verbatim>\<open>toString\<close>, \<^verbatim>\<open>map\<close>, ...) are not modelled: no key the program reads
  is one of them.
\<close>

fun get_prop :: "json \<Rightarrow> string \<Rightarrow> json option" where
  "get_prop (JObj kvs) key = map_of kvs key"
| "get_prop (JArr xs) key =
     (if key = ''length'' then Some (JNum (int (length xs))) else map_of (own_props (JArr xs)) key)"
| "get_prop (JStr s) key =
     (if key = ''length'' then Some (JNum (int (length s))) else map_of (own_props (JStr s)) key)"
| "get_prop v key = None"

text \<open>\<^verbatim>\<open>v.key\<close>: reading a property of \<^verbatim>\<open>null\<close> throws.\<close>

definition read_prop :: "json \<Rightarrow> string \<Rightarrow> error + json option" where
  "read_prop v key = (if v = JNull then Inl TypeError else Inr (get_prop v key))"

text \<open>\<^verbatim>\<open>e?.[key]\<close>: optional chaining yields \<^verbatim>\<open>undefined\<close> when \<open>e\<close> is \<^verbatim>\<open>null\<close> or
  \<^verbatim>\<open>undefined\<close>.\<close>

fun opt_prop :: "json option \<Rightarrow> string \<Rightarrow> json option" where
  "opt_prop None key = None"
| "opt_prop (Some JNull) key = None"
| "opt_prop (Some v) key = get_prop v key"

text \<open>\<^verbatim>\<open>result[key] = v\<close> on an object under construction: an existing key keeps its place,
  a new key goes last.\<close>

fun obj_set :: "(string \<times> json) list \<Rightarrow> string \<Rightarrow> json \<Rightarrow> (string \<times> json) list" where
  "obj_set [] key v = [(key, v)]"
| "obj_set ((k, w) # kvs) key v = (if k = key then (k, v) # kvs else (k, w) # obj_set kvs key v)"

text \<open>\<^verbatim>\<open>filtered.key = v\<close>. The program assigns only to objects that \<open>pickProperties\<close> has just
  built; on a primitive the assignment has no effect (the script is not in strict mode).\<close>

fun set_prop :: "json \<Rightarrow> string \<Rightarrow> json \<Rightarrow> json" where
  "set_prop (JObj kvs) key v = JObj (obj_set kvs key v)"
| "set_prop w key v = w"

text \<open>\<^verbatim>\<open>xs.map(f)\<close> for an \<open>f\<close> that may throw: the first exception ends the map.\<close>

fun map_err :: "('a \<Rightarrow> error + 'b) \<Rightarrow> 'a list \<Rightarrow> error + 'b list" where
  "map_err f [] = Inr []"
| "map_err f (x # xs) =
     (case f x of
        Inl e \<Rightarrow> Inl e
      | Inr y \<Rightarrow> (case map_err f xs of Inl e \<Rightarrow> Inl e | Inr ys \<Rightarrow> Inr (y # ys)))"

section \<open>Configuration\<close>

text \<open>The two variants of the script share every table but \<^verbatim>\<open>CONFIG.required.pregnancy\<close>.\<close>

definition required_client :: "string list" where
  "required_client = [''pregnancies'']"

definition required_pregnancy_strict :: "string list" where
  "required_pregnancy_strict = [''birth'']"

definition required_pregnancy_salvage :: "string list" where
  "required_pregnancy_salvage = [''birth'', ''cares_after'', ''cares_after_phone'']"

definition required_birth :: "string list" where
  "required_birth = [''children'']"

definition whitelist_client :: "string list" where
  "whitelist_client = [''id'', ''pregnancies'']"

definition whitelist_pregnancy :: "string list" where
  "whitelist_pregnancy =
     [''id'', ''id_client'', ''data_encr'', ''expected_birth_date'',
      ''birth'', ''cares_after'', ''cares_after_phone'']"

definition whitelist_birth :: "string list" where
  "whitelist_birth = [''id'', ''id_pregnancy'', ''data_encr'', ''children'']"

definition whitelist_child :: "string list" where
  "whitelist_child =
     [''id'', ''id_birth'', ''date_birth'', ''data_encr'',
      ''created_at'', ''updated_at'', ''deleted_at'',
      ''created_by'', ''updated_by'', ''in_dashboard'',
      ''pregnancy_id'', ''client_id'']"

definition whitelist_careAfter :: "string list" where
  "whitelist_careAfter = [''id'', ''id_pregnancy'', ''data_encr'', ''date_start'', ''date_end'']"

definition whitelist_careAfterPhone :: "string list" where
  "whitelist_careAfterPhone =
     [''id'', ''id_user'', ''id_pregnancy'', ''date_start'', ''date_end'', ''is_breast_feeding'']"

definition dataEncr_pregnancy :: "string list" where
  "dataEncr_pregnancy = [''fields-type'', ''egt'', ''grav'', ''para'', ''stillwunsch'']"

definition dataEncr_birth :: "string list" where
  "dataEncr_birth = [''fields-type'', ''geburts-modus'', ''blutverlust'', ''mother-entlassungdatum'']"

definition dataEncr_child :: "string list" where
  "dataEncr_child = [''fields-type'', ''birth_date'', ''birth_time'']"

definition dataEncr_careAfter :: "string list" where
  "dataEncr_careAfter =
     [''stillt'', ''child-tab'', ''ibds-left'', ''ibds-right'',
      ''care_length'', ''is_first_care'', ''laktierend-left'', ''laktierend-right'',
      ''regelrechtes-wochenbett'']"

definition careAfterDynamicPatterns :: "string list" where
  "careAfterDynamicPatterns = [''kind-{id}-nahrung'', ''kind-{id}-physiologisches-neugeborenes'']"

section \<open>Helper functions\<close>

subsection \<open>pickProperties\<close>

text \<open>
  The loop of \<open>pickProperties\<close>. A value parsed from JSON has no property that holds
  \<^verbatim>\<open>undefined\<close>, so \<^verbatim>\<open>key in obj\<close> is \<open>get_prop obj key \<noteq> None\<close>.
\<close>

fun pick_loop :: "json \<Rightarrow> string list \<Rightarrow> (string \<times> json) list \<Rightarrow> (string \<times> json) list" where
  "pick_loop obj [] result = result"
| "pick_loop obj (key # keys) result =
     pick_loop obj keys
       (case get_prop obj key of Some v \<Rightarrow> obj_set result key v | None \<Rightarrow> result)"

definition pickProperties :: "json \<Rightarrow> string list \<Rightarrow> json" where
  "pickProperties obj keys =
     (if \<not> truthy obj \<or> \<not> typeof_object obj then obj else JObj (pick_loop obj keys []))"

subsection \<open>matchesDynamicPattern\<close>

text \<open>
  \<^verbatim>\<open>pattern.replace('{id}', '\\d+')\<close> replaces the first occurrence of the placeholder; the
  result, between \<^verbatim>\<open>^\<close> and \<^verbatim>\<open>$\<close>, is compiled by \<^verbatim>\<open>new RegExp\<close> without escaping. The model
  keeps the compiled expression as a list of items and reads every character outside the
  placeholder as itself. That is what the regular expression does when none of these
  characters has a meaning in the syntax of regular expressions (\<open>literal_pattern\<close> below),
  as in the configured patterns, which are made of letters and hyphens. A pattern with such
  a character (\<^verbatim>\<open>a.c\<close>, say, which as a regular expression matches \<^verbatim>\<open>abc\<close>) is outside the
  model: nothing is stated below of what the matcher does with it.
\<close>

datatype ritem = Lit char | Digits

fun replace_id :: "string \<Rightarrow> ritem list" where
  "replace_id [] = []"
| "replace_id (c # cs) =
     (if take 4 (c # cs) = ''{id}'' then Digits # map Lit (drop 4 (c # cs))
      else Lit c # replace_id cs)"

definition is_digit :: "char \<Rightarrow> bool" where
  "is_digit c = (c \<in> set ''0123456789'')"

text \<open>\<^verbatim>\<open>regex.test(key)\<close> for the anchored expression; \<open>Digits\<close> is \<^verbatim>\<open>\d+\<close>.\<close>

fun regex_test :: "ritem list \<Rightarrow> string \<Rightarrow> bool" where
  "regex_test [] s = (s = [])"
| "regex_test (Lit c # r) [] = False"
| "regex_test (Lit c # r) (x # xs) = (x = c \<and> regex_test r xs)"
| "regex_test (Digits # r) [] = False"
| "regex_test (Digits # r) (x # xs) =
     (is_digit x \<and> (regex_test r xs \<or> regex_test (Digits # r) xs))"

definition matchesDynamicPattern :: "string \<Rightarrow> string \<Rightarrow> bool" where
  "matchesDynamicPattern key pattern = regex_test (replace_id pattern) key"

definition regex_special :: "char \<Rightarrow> bool" where
  "regex_special c = (c \<in> set ''^$.*+?()[]{}|/'' \<or> c = CHR 0x5C)"

text \<open>A pattern whose characters outside the first placeholder are all ordinary.\<close>

fun literal_pattern :: "string \<Rightarrow> bool" where
  "literal_pattern [] = True"
| "literal_pattern (c # cs) =
     (if take 4 (c # cs) = ''{id}'' then \<forall>d \<in> set (drop 4 (c # cs)). \<not> regex_special d
      else \<not> regex_special c \<and> literal_pattern cs)"

subsection \<open>filterDataEncr\<close>

text \<open>The loop over \<^verbatim>\<open>Object.keys(dataEncr)\<close>; \<open>dynamicPatterns\<close> is \<open>None\<close> for the default
  \<^verbatim>\<open>null\<close>.\<close>

fun encr_loop ::
  "json \<Rightarrow> string list \<Rightarrow> string list option \<Rightarrow> string list \<Rightarrow> (string \<times> json) list
     \<Rightarrow> (string \<times> json) list" where
  "encr_loop dataEncr allowedKeys dynamicPatterns [] result = result"
| "encr_loop dataEncr allowedKeys dynamicPatterns (key # keys) result =
     encr_loop dataEncr allowedKeys dynamicPatterns keys
       (if key \<in> set allowedKeys then
          (case get_prop dataEncr key of Some v \<Rightarrow> obj_set result key v | None \<Rightarrow> result)
        else if (case dynamicPatterns of
                   None \<Rightarrow> False
                 | Some ps \<Rightarrow> list_ex (\<lambda>pattern. matchesDynamicPattern key pattern) ps) then
          (case get_prop dataEncr key of Some v \<Rightarrow> obj_set result key v | None \<Rightarrow> result)
        else result)"

definition filterDataEncr :: "json \<Rightarrow> string list \<Rightarrow> string list option \<Rightarrow> json" where
  "filterDataEncr dataEncr allowedKeys dynamicPatterns =
     (if \<not> truthy dataEncr \<or> \<not> typeof_object dataEncr then dataEncr
      else JObj (encr_loop dataEncr allowedKeys dynamicPatterns
                   (map fst (own_props dataEncr)) []))"

subsection \<open>isValidValue\<close>

fun isValidValue :: "json option \<Rightarrow> bool \<Rightarrow> bool" where
  "isValidValue None checkNonEmptyArray = False"
| "isValidValue (Some JNull) checkNonEmptyArray = False"
| "isValidValue (Some (JArr xs)) checkNonEmptyArray = (\<not> (checkNonEmptyArray \<and> length xs = 0))"
| "isValidValue (Some v) checkNonEmptyArray = True"

section \<open>Validation\<close>

text \<open>The result \<^verbatim>\<open>{ valid, missingField }\<close> of \<open>validateEntity\<close>: either valid with no
  field, or invalid with the field that failed.\<close>

datatype entity_validation = EntityValid | EntityInvalid string

fun validateEntity :: "json option \<Rightarrow> string list \<Rightarrow> bool \<Rightarrow> entity_validation" where
  "validateEntity entity [] checkArrayNonEmpty = EntityValid"
| "validateEntity entity (field # requiredFields) checkArrayNonEmpty =
     (if \<not> isValidValue (opt_prop entity field) checkArrayNonEmpty then EntityInvalid field
      else validateEntity entity requiredFields checkArrayNonEmpty)"


text \<open>
  The reason string of a validation failure, kept as the data its template is filled with:
  \<^item> \<open>MissingClientField f\<close>: \<^verbatim>\<open>Missing required field 'client.f' (defined in CONFIG.required.client)\<close>;
  \<^item> \<open>MissingPregnancyFieldAt i id f\<close> (strict variant):
    \<^verbatim>\<open>Pregnancy[i] (id: id): Missing required field 'pregnancy.f' (defined in CONFIG.required.pregnancy)\<close>;
  \<^item> \<open>MissingBirthFieldAt i id f\<close> (strict variant): the same with \<^verbatim>\<open>'birth.f'\<close>;
  \<^item> \<open>MissingPregnancyField f\<close> and \<open>MissingBirthField f\<close> (salvage variant): the two
    templates without the \<^verbatim>\<open>Pregnancy[i] (id: id):\<close> prefix;
  \<^item> \<open>NoValidPregnancies\<close>: \<^verbatim>\<open>No valid pregnancies remaining after validation\<close>.
\<close>

datatype reason =
    MissingClientField string
  | MissingPregnancyFieldAt nat "json option" string
  | MissingBirthFieldAt nat "json option" string
  | MissingPregnancyField string
  | MissingBirthField string
  | NoValidPregnancies

text \<open>The result \<^verbatim>\<open>{ valid, reason }\<close>.\<close>

datatype validation = Valid | Invalid reason

text \<open>\<^verbatim>\<open>e.key\<close> for an \<open>e\<close> that may be \<^verbatim>\<open>undefined\<close>: throws on \<^verbatim>\<open>undefined\<close> and \<^verbatim>\<open>null\<close>.\<close>

fun read_prop_opt :: "json option \<Rightarrow> string \<Rightarrow> error + json option" where
  "read_prop_opt None key = Inl TypeError"
| "read_prop_opt (Some v) key = read_prop v key"

subsection \<open>The salvage variant\<close>

definition validatePregnancy :: "json \<Rightarrow> error + validation" where
  "validatePregnancy pregnancy =
     (case validateEntity (Some pregnancy) required_pregnancy_salvage True of
        EntityInvalid missingField \<Rightarrow> Inr (Invalid (MissingPregnancyField missingField))
      | EntityValid \<Rightarrow>
          (case read_prop pregnancy ''birth'' of
             Inl e \<Rightarrow> Inl e
           | Inr birth \<Rightarrow>
               if truthy_opt birth then
                 (case validateEntity birth required_birth True of
                    EntityInvalid missingField \<Rightarrow> Inr (Invalid (MissingBirthField missingField))
                  | EntityValid \<Rightarrow> Inr Valid)
               else Inr Valid))"

definition validateClient_salvage :: "json \<Rightarrow> validation" where
  "validateClient_salvage client =
     (case validateEntity (Some client) required_client True of
        EntityInvalid missingField \<Rightarrow> Invalid (MissingClientField missingField)
      | EntityValid \<Rightarrow> Valid)"

subsection \<open>The strict variant\<close>

text \<open>
  The loop of the strict \<open>validateClient\<close> compares its index with
  \<^verbatim>\<open>client.pregnancies.length\<close>, whatever value that is: the number of elements of an array,
  the number of code units of a string, \<^verbatim>\<open>undefined\<close> for a number or a boolean, and the
  own property \<^verbatim>\<open>length\<close> of a plain object, if it has one. \<open>js_less i v\<close> is \<^verbatim>\<open>i < v\<close> for
  an index \<open>i\<close>: \<open>v\<close> is converted to a number, and a comparison with \<^verbatim>\<open>NaN\<close> (\<open>None\<close>) is
  false. \<open>StringToNumber\<close> reads the empty string and strings of decimal digits; the
  other numeric literals JavaScript accepts in a string (white space, signs, fractions,
  exponents, radix prefixes) are read as \<^verbatim>\<open>NaN\<close> here, which only matters for a plain object
  whose \<^verbatim>\<open>length\<close> property holds such a string.
\<close>

definition digit_value :: "char \<Rightarrow> nat" where
  "digit_value c = of_char c - 48"

definition StringToNumber :: "string \<Rightarrow> int option" where
  "StringToNumber s =
     (if \<forall>c \<in> set s. is_digit c then Some (int (foldl (\<lambda>a c. 10 * a + digit_value c) 0 s))
      else None)"

fun show_int :: "int \<Rightarrow> string" where
  "show_int n = (if n < 0 then CHR ''-'' # show_nat (nat (- n)) else show_nat (nat n))"

fun join_comma :: "string list \<Rightarrow> string" where
  "join_comma [] = []"
| "join_comma [s] = s"
| "join_comma (s # t # ss) = s @ '','' @ join_comma (t # ss)"

fun ToString :: "json \<Rightarrow> string" where
  "ToString JNull = ''null''"
| "ToString (JBool b) = (if b then ''true'' else ''false'')"
| "ToString (JNum n) = show_int n"
| "ToString (JStr s) = s"
| "ToString (JArr xs) = join_comma (map (\<lambda>x. if x = JNull then [] else ToString x) xs)"
| "ToString (JObj kvs) = ''[object Object]''"

fun ToNumber :: "json option \<Rightarrow> int option" where
  "ToNumber None = None"
| "ToNumber (Some JNull) = Some 0"
| "ToNumber (Some (JBool b)) = Some (if b then 1 else 0)"
| "ToNumber (Some (JNum n)) = Some n"
| "ToNumber (Some (JStr s)) = StringToNumber s"
| "ToNumber (Some (JArr xs)) = StringToNumber (ToString (JArr xs))"
| "ToNumber (Some (JObj kvs)) = None"

definition js_less :: "nat \<Rightarrow> json option \<Rightarrow> bool" where
  "js_less i v = (case ToNumber v of None \<Rightarrow> False | Some n \<Rightarrow> int i < n)"

text \<open>The index \<open>i\<close> is a property key: \<^verbatim>\<open>client.pregnancies[i]\<close> reads the property
  \<open>show_nat i\<close>. The loop terminates on every value, because it goes on only after it
  has found a property at the current index, and a value has finitely many properties.\<close>

lemma digit_char_inj: "a < 10 \<Longrightarrow> b < 10 \<Longrightarrow> digit_char a = digit_char b \<Longrightarrow> a = b"
  by (auto simp: digit_char_def numeral_eq_Suc less_Suc_eq)

lemma show_nat_nonempty: "show_nat n \<noteq> []"
  by (subst show_nat.simps) simp

lemma show_nat_inj: "show_nat n = show_nat m \<Longrightarrow> n = m"
proof (induction n arbitrary: m rule: show_nat.induct)
  case (1 n)
  show ?case
  proof (cases "n < 10")
    case True
    show ?thesis
    proof (cases "m < 10")
      case m: True
      from "1.prems" True m have "digit_char n = digit_char m"
        by (simp add: show_nat.simps[of n] show_nat.simps[of m])
      with True m show ?thesis by (intro digit_char_inj)
    next
      case False
      with "1.prems" True show ?thesis
        using show_nat_nonempty[of "m div 10"]
        by (simp add: show_nat.simps[of n] show_nat.simps[of m])
    qed
  next
    case False
    show ?thesis
    proof (cases "m < 10")
      case True
      with "1.prems" False show ?thesis
        using show_nat_nonempty[of "n div 10"]
        by (simp add: show_nat.simps[of n] show_nat.simps[of m])
    next
      case m: False
      from "1.prems" False m have eq: "show_nat (n div 10) = show_nat (m div 10)"
        and d: "digit_char (n mod 10) = digit_char (m mod 10)"
        by (simp_all add: show_nat.simps[of n] show_nat.simps[of m])
      from "1.IH"[OF False eq] have "n div 10 = m div 10" .
      moreover from d have "n mod 10 = m mod 10" by (intro digit_char_inj) simp_all
      ultimately show ?thesis by (metis div_mult_mod_eq)
    qed
  qed
qed

lemma finite_props: "finite {k. get_prop v k \<noteq> None}"
proof -
  have fin: "finite {k. map_of (kvs :: (string \<times> json) list) k \<noteq> None}" for kvs
    using finite_dom_map_of[of kvs] by (simp add: dom_def)
  show ?thesis
  proof (cases v)
    case (JArr xs)
    have "{k. get_prop v k \<noteq> None} \<subseteq> insert ''length'' {k. map_of (own_props (JArr xs)) k \<noteq> None}"
      using JArr by (auto simp del: own_props.simps split: if_splits)
    then show ?thesis using fin finite_subset by (metis finite_insert)
  next
    case (JStr s)
    have "{k. get_prop v k \<noteq> None} \<subseteq> insert ''length'' {k. map_of (own_props (JStr s)) k \<noteq> None}"
      using JStr by (auto simp del: own_props.simps split: if_splits)
    then show ?thesis using fin finite_subset by (metis finite_insert)
  qed (use fin in auto)
qed

lemma finite_indices: "finite {j. get_prop v (show_nat j) \<noteq> None}"
proof -
  have "{j. get_prop v (show_nat j) \<noteq> None} = show_nat -` {k. get_prop v k \<noteq> None}" by auto
  moreover have "inj show_nat" by (rule injI) (rule show_nat_inj)
  ultimately show ?thesis using finite_props finite_vimageI by metis
qed

definition remaining :: "json \<Rightarrow> nat \<Rightarrow> nat" where
  "remaining v i = card {j. i \<le> j \<and> get_prop v (show_nat j) \<noteq> None}"

lemma remaining_less:
  assumes "get_prop v (show_nat i) \<noteq> None"
  shows "remaining v (Suc i) < remaining v i"
proof -
  have "i \<in> {j. i \<le> j \<and> get_prop v (show_nat j) \<noteq> None}"
    and "i \<notin> {j. Suc i \<le> j \<and> get_prop v (show_nat j) \<noteq> None}"
    using assms by auto
  moreover have "{j. Suc i \<le> j \<and> get_prop v (show_nat j) \<noteq> None} \<subseteq> {j. i \<le> j \<and> get_prop v (show_nat j) \<noteq> None}"
    by auto
  ultimately have "{j. Suc i \<le> j \<and> get_prop v (show_nat j) \<noteq> None} \<subset> {j. i \<le> j \<and> get_prop v (show_nat j) \<noteq> None}"
    by blast
  moreover have "finite {j. i \<le> j \<and> get_prop v (show_nat j) \<noteq> None}"
    using finite_indices[of v] by (rule rev_finite_subset) auto
  ultimately show ?thesis unfolding remaining_def by (rule psubset_card_mono[rotated])
qed

lemma strict_valid_present:
  "validateEntity e required_pregnancy_strict False = EntityValid \<Longrightarrow> e \<noteq> None"
  by (cases e) (auto simp: required_pregnancy_strict_def)

function pregnancies_loop :: "json \<Rightarrow> nat \<Rightarrow> error + validation" where
  "pregnancies_loop pregnancies i =
     (if js_less i (get_prop pregnancies ''length'') then
        (let pregnancy = get_prop pregnancies (show_nat i) in
         case validateEntity pregnancy required_pregnancy_strict False of
           EntityInvalid missingField \<Rightarrow>
             (case read_prop_opt pregnancy ''id'' of
                Inl e \<Rightarrow> Inl e
              | Inr pid \<Rightarrow> Inr (Invalid (MissingPregnancyFieldAt i pid missingField)))
         | EntityValid \<Rightarrow>
             (case read_prop_opt pregnancy ''birth'' of
                Inl e \<Rightarrow> Inl e
              | Inr birth \<Rightarrow>
                  if truthy_opt birth then
                    (case validateEntity birth required_birth True of
                       EntityInvalid missingField \<Rightarrow>
                         (case read_prop_opt pregnancy ''id'' of
                            Inl e \<Rightarrow> Inl e
                          | Inr pid \<Rightarrow> Inr (Invalid (MissingBirthFieldAt i pid missingField)))
                     | EntityValid \<Rightarrow> pregnancies_loop pregnancies (i + 1))
                  else pregnancies_loop pregnancies (i + 1)))
      else Inr Valid)"
  by pat_completeness auto
termination pregnancies_loop
proof (relation "measure (\<lambda>(v, i). remaining v i)")
  show "wf (measure (\<lambda>(v, i). remaining v i))" by simp
next
  fix pregnancies i x xa xb
  assume "x = get_prop pregnancies (show_nat i)" "validateEntity x required_pregnancy_strict False = EntityValid"
  then have "get_prop pregnancies (show_nat i) \<noteq> None" using strict_valid_present by blast
  then show "((pregnancies, i + 1), pregnancies, i) \<in> measure (\<lambda>(v, i). remaining v i)"
    using remaining_less by simp
next
  fix pregnancies i x xa xb
  assume "x = get_prop pregnancies (show_nat i)" "validateEntity x required_pregnancy_strict False = EntityValid"
  then have "get_prop pregnancies (show_nat i) \<noteq> None" using strict_valid_present by blast
  then show "((pregnancies, i + 1), pregnancies, i) \<in> measure (\<lambda>(v, i). remaining v i)"
    using remaining_less by simp
qed

declare pregnancies_loop.simps [simp del]

definition validateClient_strict :: "json \<Rightarrow> error + validation" where
  "validateClient_strict client =
     (case validateEntity (Some client) required_client True of
        EntityInvalid missingField \<Rightarrow> Inr (Invalid (MissingClientField missingField))
      | EntityValid \<Rightarrow>
          (case read_prop client ''pregnancies'' of
             Inl e \<Rightarrow> Inl e
           | Inr None \<Rightarrow> Inl TypeError
           | Inr (Some pregnancies) \<Rightarrow>
               if pregnancies = JNull then Inl TypeError else pregnancies_loop pregnancies 0))"

section \<open>Filter functions\<close>

definition filterCareAfterPhone :: "json \<Rightarrow> json" where
  "filterCareAfterPhone careAfterPhone = pickProperties careAfterPhone whitelist_careAfterPhone"

text \<open>The statement every filter with a \<^verbatim>\<open>data_encr\<close> runs after \<open>pickProperties\<close>:
  \<^verbatim>\<open>if (filtered.data_encr) filtered.data_encr = filterDataEncr(filtered.data_encr, ...)\<close>.\<close>

definition filter_data_encr_field ::
  "json \<Rightarrow> string list \<Rightarrow> string list option \<Rightarrow> error + json" where
  "filter_data_encr_field filtered allowedKeys dynamicPatterns =
     (case read_prop filtered ''data_encr'' of
        Inl e \<Rightarrow> Inl e
      | Inr None \<Rightarrow> Inr filtered
      | Inr (Some d) \<Rightarrow>
          if truthy d then
            Inr (set_prop filtered ''data_encr'' (filterDataEncr d allowedKeys dynamicPatterns))
          else Inr filtered)"

definition filterCareAfter :: "json \<Rightarrow> error + json" where
  "filterCareAfter careAfter =
     filter_data_encr_field (pickProperties careAfter whitelist_careAfter)
       dataEncr_careAfter (Some careAfterDynamicPatterns)"

definition filterChild :: "json \<Rightarrow> error + json" where
  "filterChild child =
     filter_data_encr_field (pickProperties child whitelist_child) dataEncr_child None"

definition filterBirth :: "json \<Rightarrow> error + json" where
  "filterBirth birth =
     (if \<not> truthy birth then Inr JNull
      else
        (case filter_data_encr_field (pickProperties birth whitelist_birth) dataEncr_birth None of
           Inl e \<Rightarrow> Inl e
         | Inr filtered \<Rightarrow>
             (case read_prop filtered ''children'' of
                Inl e \<Rightarrow> Inl e
              | Inr (Some (JArr children)) \<Rightarrow>
                  (case map_err filterChild children of
                     Inl e \<Rightarrow> Inl e
                   | Inr cs \<Rightarrow> Inr (set_prop filtered ''children'' (JArr cs)))
              | Inr other \<Rightarrow> Inr filtered)))"

definition filterPregnancy :: "json \<Rightarrow> error + json" where
  "filterPregnancy pregnancy =
     (case filter_data_encr_field (pickProperties pregnancy whitelist_pregnancy)
             dataEncr_pregnancy None of
        Inl e \<Rightarrow> Inl e
      | Inr filtered1 \<Rightarrow>
     (case (case read_prop filtered1 ''birth'' of
              Inl e \<Rightarrow> Inl e
            | Inr None \<Rightarrow> Inr filtered1
            | Inr (Some birth) \<Rightarrow>
                if truthy birth then
                  (case filterBirth birth of
                     Inl e \<Rightarrow> Inl e
                   | Inr b \<Rightarrow> Inr (set_prop filtered1 ''birth'' b))
                else Inr filtered1) of
        Inl e \<Rightarrow> Inl e
      | Inr filtered2 \<Rightarrow>
     (case (case read_prop filtered2 ''cares_after'' of
              Inl e \<Rightarrow> Inl e
            | Inr (Some (JArr cares_after)) \<Rightarrow>
                (case map_err filterCareAfter cares_after of
                   Inl e \<Rightarrow> Inl e
                 | Inr cs \<Rightarrow> Inr (set_prop filtered2 ''cares_after'' (JArr cs)))
            | Inr other \<Rightarrow> Inr filtered2) of
        Inl e \<Rightarrow> Inl e
      | Inr filtered3 \<Rightarrow>
     (case read_prop filtered3 ''cares_after_phone'' of
        Inl e \<Rightarrow> Inl e
      | Inr (Some (JArr cares_after_phone)) \<Rightarrow>
          Inr (set_prop filtered3 ''cares_after_phone''
                 (JArr (map filterCareAfterPhone cares_after_phone)))
      | Inr other \<Rightarrow> Inr filtered3))))"

definition filterClient :: "json \<Rightarrow> error + json" where
  "filterClient client =
     (let filtered = pickProperties client whitelist_client in
      case read_prop filtered ''pregnancies'' of
        Inl e \<Rightarrow> Inl e
      | Inr (Some (JArr pregnancies)) \<Rightarrow>
          (case map_err filterPregnancy pregnancies of
             Inl e \<Rightarrow> Inl e
           | Inr ps \<Rightarrow> Inr (set_prop filtered ''pregnancies'' (JArr ps)))
      | Inr other \<Rightarrow> Inr filtered)"


section \<open>Main processing\<close>

text \<open>
  An entry of \<^verbatim>\<open>results.skippedClients\<close> is \<^verbatim>\<open>{ id, reason }\<close>, an entry of
  \<^verbatim>\<open>results.skippedPregnancies\<close> is \<^verbatim>\<open>{ clientId, pregnancyId, reason }\<close>; an id is whatever
  the record holds under \<^verbatim>\<open>id\<close>, \<^verbatim>\<open>undefined\<close> included.
\<close>

datatype skipped_client = SkippedClient "json option" reason

datatype skipped_pregnancy = SkippedPregnancy "json option" "json option" reason

text \<open>The statistics. The strict variant has the first four fields only and calls the
  third \<^verbatim>\<open>skippedCount\<close>; its runs leave the last two at their initial values.\<close>

record results =
  totalClients :: nat
  successCount :: nat
  skippedClientsCount :: nat
  skippedClients :: "skipped_client list"
  skippedPregnanciesCount :: nat
  skippedPregnancies :: "skipped_pregnancy list"

definition initial_results :: results where
  "initial_results =
     \<lparr>totalClients = 0, successCount = 0, skippedClientsCount = 0, skippedClients = [],
      skippedPregnanciesCount = 0, skippedPregnancies = []\<rparr>"

text \<open>A \<^verbatim>\<open>for ... of\<close> loop whose body may throw, over the state \<open>(outputData, results)\<close>.\<close>

fun for_each :: "('a \<Rightarrow> 's \<Rightarrow> 'e + 's) \<Rightarrow> 'a list \<Rightarrow> 's \<Rightarrow> 'e + 's" where
  "for_each body [] st = Inr st"
| "for_each body (x # xs) st =
     (case body x st of Inl e \<Rightarrow> Inl e | Inr st' \<Rightarrow> for_each body xs st')"

subsection \<open>The strict variant\<close>

text \<open>The body of the loop of \<open>processData\<close>.\<close>

definition process_client_strict ::
  "json \<Rightarrow> json list \<times> results \<Rightarrow> error + (json list \<times> results)" where
  "process_client_strict client st =
     (case st of (outputData, results) \<Rightarrow>
      case validateClient_strict client of
        Inl e \<Rightarrow> Inl e
      | Inr Valid \<Rightarrow>
          (case filterClient client of
             Inl e \<Rightarrow> Inl e
           | Inr filteredClient \<Rightarrow>
               Inr (outputData @ [filteredClient],
                    results\<lparr>successCount := successCount results + 1\<rparr>))
      | Inr (Invalid reason) \<Rightarrow>
          (case read_prop client ''id'' of
             Inl e \<Rightarrow> Inl e
           | Inr cid \<Rightarrow>
               Inr (outputData,
                    results\<lparr>skippedClientsCount := skippedClientsCount results + 1,
                            skippedClients := skippedClients results @ [SkippedClient cid reason]\<rparr>)))"

definition processData_strict :: "json \<Rightarrow> error + (json list \<times> results)" where
  "processData_strict inputData =
     (case inputData of
        JArr clients \<Rightarrow>
          for_each process_client_strict clients
            ([], initial_results\<lparr>totalClients := length clients\<rparr>)
      | other \<Rightarrow> Inl ProcessExit)"

subsection \<open>The salvage variant\<close>

text \<open>\<^verbatim>\<open>for (const pregnancy of v)\<close>: arrays and strings can be iterated, nothing else that
  JSON holds can.\<close>

fun iterate :: "json option \<Rightarrow> error + json list" where
  "iterate (Some (JArr xs)) = Inr xs"
| "iterate (Some (JStr s)) = Inr (map (\<lambda>c. JStr [c]) s)"
| "iterate v = Inl TypeError"

text \<open>The body of the inner loop, over the state \<open>(validPregnancies, results)\<close>.\<close>

definition check_pregnancy ::
  "json \<Rightarrow> json \<Rightarrow> json list \<times> results \<Rightarrow> error + (json list \<times> results)" where
  "check_pregnancy client pregnancy st =
     (case st of (validPregnancies, results) \<Rightarrow>
      case validatePregnancy pregnancy of
        Inl e \<Rightarrow> Inl e
      | Inr Valid \<Rightarrow> Inr (validPregnancies @ [pregnancy], results)
      | Inr (Invalid reason) \<Rightarrow>
          (case read_prop client ''id'' of
             Inl e \<Rightarrow> Inl e
           | Inr cid \<Rightarrow>
               (case read_prop pregnancy ''id'' of
                  Inl e \<Rightarrow> Inl e
                | Inr pid \<Rightarrow>
                    Inr (validPregnancies,
                         results\<lparr>skippedPregnanciesCount := skippedPregnanciesCount results + 1,
                                 skippedPregnancies :=
                                   skippedPregnancies results @ [SkippedPregnancy cid pid reason]\<rparr>))))"

text \<open>\<^verbatim>\<open>{ ...client, pregnancies: validPregnancies }\<close>: a new object with the own properties
  of \<open>client\<close>, and \<^verbatim>\<open>pregnancies\<close> replaced.\<close>

definition with_pregnancies :: "json \<Rightarrow> json list \<Rightarrow> json" where
  "with_pregnancies client validPregnancies =
     JObj (obj_set (own_props client) ''pregnancies'' (JArr validPregnancies))"

definition process_client_salvage ::
  "json \<Rightarrow> json list \<times> results \<Rightarrow> error + (json list \<times> results)" where
  "process_client_salvage client st =
     (case st of (outputData, results) \<Rightarrow>
      case validateClient_salvage client of
        Invalid reason \<Rightarrow>
          (case read_prop client ''id'' of
             Inl e \<Rightarrow> Inl e
           | Inr cid \<Rightarrow>
               Inr (outputData,
                    results\<lparr>skippedClientsCount := skippedClientsCount results + 1,
                            skippedClients := skippedClients results @ [SkippedClient cid reason]\<rparr>))
      | Valid \<Rightarrow>
          (case read_prop client ''pregnancies'' of
             Inl e \<Rightarrow> Inl e
           | Inr pregnancies \<Rightarrow>
          (case iterate pregnancies of
             Inl e \<Rightarrow> Inl e
           | Inr ps \<Rightarrow>
          (case for_each (check_pregnancy client) ps ([], results) of
             Inl e \<Rightarrow> Inl e
           | Inr (validPregnancies, results1) \<Rightarrow>
               if length validPregnancies = 0 then
                 (case read_prop client ''id'' of
                    Inl e \<Rightarrow> Inl e
                  | Inr cid \<Rightarrow>
                      Inr (outputData,
                           results1\<lparr>skippedClientsCount := skippedClientsCount results1 + 1,
                                    skippedClients :=
                                      skippedClients results1 @ [SkippedClient cid NoValidPregnancies]\<rparr>))
               else
                 (case filterClient (with_pregnancies client validPregnancies) of
                    Inl e \<Rightarrow> Inl e
                  | Inr filteredClient \<Rightarrow>
                      Inr (outputData @ [filteredClient],
                           results1\<lparr>successCount := successCount results1 + 1\<rparr>))))))"

definition processData_salvage :: "json \<Rightarrow> error + (json list \<times> results)" where
  "processData_salvage inputData =
     (case inputData of
        JArr clients \<Rightarrow>
          for_each process_client_salvage clients
            ([], initial_results\<lparr>totalClients := length clients\<rparr>)
      | other \<Rightarrow> Inl ProcessExit)"


section \<open>The pipeline on a heap\<close>

text \<open>
  Whether the run changes its input is a question about objects that are shared and
  assigned to, which the values above cannot express. This second model of the filters
  and of \<open>processData\<close> keeps objects and arrays in a heap: a value is a primitive or a
  reference, the heap is the list of the objects allocated so far (an address is an
  index), \<^verbatim>\<open>{}\<close> and \<^verbatim>\<open>[]\<close> and \<^verbatim>\<open>map\<close> allocate, and an assignment \<^verbatim>\<open>o[key] = v\<close> writes to the
  object at the address of \<open>o\<close>. A reference to an address that holds no object, which
  no heap of the program has, reads as an object without properties.
\<close>

datatype hval = HNull | HBool bool | HNum int | HStr string | HRef nat

datatype hobj = HObject "(string \<times> hval) list" | HArray "hval list"

type_synonym heap = "hobj list"

definition lookup :: "heap \<Rightarrow> nat \<Rightarrow> hobj option" where
  "lookup h a = (if a < length h then Some (h ! a) else None)"

fun truthy_h :: "hval \<Rightarrow> bool" where
  "truthy_h HNull = False"
| "truthy_h (HBool b) = b"
| "truthy_h (HNum n) = (n \<noteq> 0)"
| "truthy_h (HStr s) = (s \<noteq> [])"
| "truthy_h (HRef a) = True"

fun typeof_object_h :: "hval \<Rightarrow> bool" where
  "typeof_object_h HNull = True"
| "typeof_object_h (HRef a) = True"
| "typeof_object_h v = False"

fun own_props_h :: "heap \<Rightarrow> hval \<Rightarrow> (string \<times> hval) list" where
  "own_props_h h (HRef a) =
     (case lookup h a of
        Some (HObject kvs) \<Rightarrow> kvs
      | Some (HArray xs) \<Rightarrow> zip (map show_nat [0..<length xs]) xs
      | None \<Rightarrow> [])"
| "own_props_h h (HStr s) = zip (map show_nat [0..<length s]) (map (\<lambda>c. HStr [c]) s)"
| "own_props_h h v = []"

fun get_prop_h :: "heap \<Rightarrow> hval \<Rightarrow> string \<Rightarrow> hval option" where
  "get_prop_h h (HRef a) key =
     (case lookup h a of
        Some (HObject kvs) \<Rightarrow> map_of kvs key
      | Some (HArray xs) \<Rightarrow>
          if key = ''length'' then Some (HNum (int (length xs)))
          else map_of (zip (map show_nat [0..<length xs]) xs) key
      | None \<Rightarrow> None)"
| "get_prop_h h (HStr s) key =
     (if key = ''length'' then Some (HNum (int (length s)))
      else map_of (own_props_h h (HStr s)) key)"
| "get_prop_h h v key = None"

definition read_prop_h :: "heap \<Rightarrow> hval \<Rightarrow> string \<Rightarrow> error + hval option" where
  "read_prop_h h v key = (if v = HNull then Inl TypeError else Inr (get_prop_h h v key))"

fun hobj_set :: "(string \<times> hval) list \<Rightarrow> string \<Rightarrow> hval \<Rightarrow> (string \<times> hval) list" where
  "hobj_set [] key v = [(key, v)]"
| "hobj_set ((k, w) # kvs) key v =
     (if k = key then (k, v) # kvs else (k, w) # hobj_set kvs key v)"

text \<open>The assignment \<^verbatim>\<open>o[key] = v\<close> for the object at address \<open>a\<close>. The program assigns
  named properties to plain objects only.\<close>

definition write_prop :: "nat \<Rightarrow> string \<Rightarrow> hval \<Rightarrow> heap \<Rightarrow> heap" where
  "write_prop a key v h =
     (case lookup h a of
        Some (HObject kvs) \<Rightarrow> h[a := HObject (hobj_set kvs key v)]
      | other \<Rightarrow> h)"

text \<open>\<^verbatim>\<open>filtered.key = v\<close>: a write when \<open>filtered\<close> is a reference, without effect on a
  primitive.\<close>

fun set_prop_h :: "hval \<Rightarrow> string \<Rightarrow> hval \<Rightarrow> heap \<Rightarrow> heap" where
  "set_prop_h (HRef a) key v h = write_prop a key v h"
| "set_prop_h w key v h = h"

text \<open>Allocation appends the new object to the heap; the reference to it is the first
  address that is free before.\<close>

definition next_ref :: "heap \<Rightarrow> hval" where
  "next_ref h = HRef (length h)"

definition alloc :: "hobj \<Rightarrow> heap \<Rightarrow> heap" where
  "alloc ob h = h @ [ob]"

subsection \<open>Helper functions\<close>

fun pick_loop_h :: "heap \<Rightarrow> hval \<Rightarrow> string list \<Rightarrow> hval \<Rightarrow> heap" where
  "pick_loop_h h obj [] result = h"
| "pick_loop_h h obj (key # keys) result =
     pick_loop_h
       (case get_prop_h h obj key of Some v \<Rightarrow> set_prop_h result key v h | None \<Rightarrow> h)
       obj keys result"

definition pickProperties_h :: "hval \<Rightarrow> string list \<Rightarrow> heap \<Rightarrow> hval \<times> heap" where
  "pickProperties_h obj keys h =
     (if \<not> truthy_h obj \<or> \<not> typeof_object_h obj then (obj, h)
      else (next_ref h, pick_loop_h (alloc (HObject []) h) obj keys (next_ref h)))"

fun encr_loop_h ::
  "heap \<Rightarrow> hval \<Rightarrow> string list \<Rightarrow> string list option \<Rightarrow> string list \<Rightarrow> hval \<Rightarrow> heap" where
  "encr_loop_h h dataEncr allowedKeys dynamicPatterns [] result = h"
| "encr_loop_h h dataEncr allowedKeys dynamicPatterns (key # keys) result =
     encr_loop_h
       (if key \<in> set allowedKeys then
          (case get_prop_h h dataEncr key of
             Some v \<Rightarrow> set_prop_h result key v h | None \<Rightarrow> h)
        else if (case dynamicPatterns of
                   None \<Rightarrow> False
                 | Some ps \<Rightarrow> list_ex (\<lambda>pattern. matchesDynamicPattern key pattern) ps) then
          (case get_prop_h h dataEncr key of
             Some v \<Rightarrow> set_prop_h result key v h | None \<Rightarrow> h)
        else h)
       dataEncr allowedKeys dynamicPatterns keys result"

definition filterDataEncr_h ::
  "hval \<Rightarrow> string list \<Rightarrow> string list option \<Rightarrow> heap \<Rightarrow> hval \<times> heap" where
  "filterDataEncr_h dataEncr allowedKeys dynamicPatterns h =
     (if \<not> truthy_h dataEncr \<or> \<not> typeof_object_h dataEncr then (dataEncr, h)
      else (next_ref h,
            encr_loop_h (alloc (HObject []) h) dataEncr allowedKeys dynamicPatterns
              (map fst (own_props_h h dataEncr)) (next_ref h)))"

subsection \<open>Filter functions\<close>

text \<open>What a call that may throw leaves: the value it returns or the error it throws, and
  in both cases the heap as it is then.\<close>

type_synonym 'a outcome = "(error \<times> heap) + ('a \<times> heap)"

text \<open>\<^verbatim>\<open>if (filtered.data_encr) filtered.data_encr = filterDataEncr(filtered.data_encr, ...)\<close>.
  This and the other statements of a filter body are given \<open>filtered\<close> and return it.\<close>

definition filter_data_encr_field_h ::
  "string list \<Rightarrow> string list option \<Rightarrow> hval \<Rightarrow> heap \<Rightarrow> hval outcome" where
  "filter_data_encr_field_h allowedKeys dynamicPatterns filtered h =
     (case read_prop_h h filtered ''data_encr'' of
        Inl e \<Rightarrow> Inl (e, h)
      | Inr None \<Rightarrow> Inr (filtered, h)
      | Inr (Some d) \<Rightarrow>
          if truthy_h d then
            (case filterDataEncr_h d allowedKeys dynamicPatterns h of
               (d', h1) \<Rightarrow> Inr (filtered, set_prop_h filtered ''data_encr'' d' h1))
          else Inr (filtered, h))"

text \<open>\<^verbatim>\<open>xs.map(f)\<close>, the heap passed from one call to the next.\<close>

fun map_err_h ::
  "(hval \<Rightarrow> heap \<Rightarrow> hval outcome) \<Rightarrow> hval list \<Rightarrow> heap \<Rightarrow> (hval list) outcome" where
  "map_err_h f [] h = Inr ([], h)"
| "map_err_h f (x # xs) h =
     (case f x h of
        Inl eh \<Rightarrow> Inl eh
      | Inr (y, h1) \<Rightarrow>
          (case map_err_h f xs h1 of Inl eh \<Rightarrow> Inl eh | Inr (ys, h2) \<Rightarrow> Inr (y # ys, h2)))"

text \<open>\<^verbatim>\<open>if (filtered.key && Array.isArray(filtered.key)) filtered.key = filtered.key.map(f)\<close>:
  \<^verbatim>\<open>map\<close> allocates the new array.\<close>

definition map_field_h ::
  "string \<Rightarrow> (hval \<Rightarrow> heap \<Rightarrow> hval outcome) \<Rightarrow> hval \<Rightarrow> heap \<Rightarrow> hval outcome" where
  "map_field_h key f filtered h =
     (case read_prop_h h filtered key of
        Inl e \<Rightarrow> Inl (e, h)
      | Inr (Some (HRef a)) \<Rightarrow>
          (case lookup h a of
             Some (HArray xs) \<Rightarrow>
               (case map_err_h f xs h of
                  Inl eh \<Rightarrow> Inl eh
                | Inr (ys, h1) \<Rightarrow>
                    Inr (filtered, set_prop_h filtered key (next_ref h1) (alloc (HArray ys) h1)))
           | other \<Rightarrow> Inr (filtered, h))
      | Inr other \<Rightarrow> Inr (filtered, h))"

definition filterCareAfterPhone_h :: "hval \<Rightarrow> heap \<Rightarrow> hval outcome" where
  "filterCareAfterPhone_h careAfterPhone h =
     Inr (pickProperties_h careAfterPhone whitelist_careAfterPhone h)"

definition filterCareAfter_h :: "hval \<Rightarrow> heap \<Rightarrow> hval outcome" where
  "filterCareAfter_h careAfter h =
     (case pickProperties_h careAfter whitelist_careAfter h of (filtered, h1) \<Rightarrow>
        filter_data_encr_field_h dataEncr_careAfter (Some careAfterDynamicPatterns) filtered h1)"

definition filterChild_h :: "hval \<Rightarrow> heap \<Rightarrow> hval outcome" where
  "filterChild_h child h =
     (case pickProperties_h child whitelist_child h of (filtered, h1) \<Rightarrow>
        filter_data_encr_field_h dataEncr_child None filtered h1)"

definition filterBirth_h :: "hval \<Rightarrow> heap \<Rightarrow> hval outcome" where
  "filterBirth_h birth h =
     (if \<not> truthy_h birth then Inr (HNull, h)
      else
        case pickProperties_h birth whitelist_birth h of (filtered, h1) \<Rightarrow>
        case filter_data_encr_field_h dataEncr_birth None filtered h1 of
          Inl eh \<Rightarrow> Inl eh
        | Inr (filtered, h2) \<Rightarrow> map_field_h ''children'' filterChild_h filtered h2)"

text \<open>\<^verbatim>\<open>if (filtered.birth) filtered.birth = filterBirth(filtered.birth)\<close>.\<close>

definition birth_field_h :: "hval \<Rightarrow> heap \<Rightarrow> hval outcome" where
  "birth_field_h filtered h =
     (case read_prop_h h filtered ''birth'' of
        Inl e \<Rightarrow> Inl (e, h)
      | Inr None \<Rightarrow> Inr (filtered, h)
      | Inr (Some birth) \<Rightarrow>
          if truthy_h birth then
            (case filterBirth_h birth h of
               Inl eh \<Rightarrow> Inl eh
             | Inr (b, h1) \<Rightarrow> Inr (filtered, set_prop_h filtered ''birth'' b h1))
          else Inr (filtered, h))"

definition filterPregnancy_h :: "hval \<Rightarrow> heap \<Rightarrow> hval outcome" where
  "filterPregnancy_h pregnancy h =
     (case pickProperties_h pregnancy whitelist_pregnancy h of (filtered, h1) \<Rightarrow>
      case filter_data_encr_field_h dataEncr_pregnancy None filtered h1 of
        Inl eh \<Rightarrow> Inl eh
      | Inr (filtered, h2) \<Rightarrow>
      (case birth_field_h filtered h2 of
        Inl eh \<Rightarrow> Inl eh
      | Inr (filtered, h3) \<Rightarrow>
      (case map_field_h ''cares_after'' filterCareAfter_h filtered h3 of
        Inl eh \<Rightarrow> Inl eh
      | Inr (filtered, h4) \<Rightarrow>
          map_field_h ''cares_after_phone'' filterCareAfterPhone_h filtered h4)))"

definition filterClient_h :: "hval \<Rightarrow> heap \<Rightarrow> hval outcome" where
  "filterClient_h client h =
     (case pickProperties_h client whitelist_client h of (filtered, h1) \<Rightarrow>
        map_field_h ''pregnancies'' filterPregnancy_h filtered h1)"

subsection \<open>Validation\<close>

text \<open>
  The validators assign to no property of an entity: they read it and build a verdict.
  On the heap they are the validators of the sections above, applied to the value that a
  reference denotes. The depth of the value read is bounded by the number of objects, which
  is enough for the trees that \<^verbatim>\<open>JSON.parse\<close> builds.
\<close>

fun denoted :: "nat \<Rightarrow> heap \<Rightarrow> hval \<Rightarrow> json" where
  "denoted n h HNull = JNull"
| "denoted n h (HBool b) = JBool b"
| "denoted n h (HNum i) = JNum i"
| "denoted n h (HStr s) = JStr s"
| "denoted 0 h (HRef a) = JNull"
| "denoted (Suc n) h (HRef a) =
     (case lookup h a of
        Some (HObject kvs) \<Rightarrow> JObj (map (\<lambda>p. (fst p, denoted n h (snd p))) kvs)
      | Some (HArray xs) \<Rightarrow> JArr (map (denoted n h) xs)
      | None \<Rightarrow> JNull)"

definition value_of :: "heap \<Rightarrow> hval \<Rightarrow> json" where
  "value_of h v = denoted (length h) h v"

definition validateClient_strict_h :: "heap \<Rightarrow> hval \<Rightarrow> error + validation" where
  "validateClient_strict_h h client = validateClient_strict (value_of h client)"

definition validateClient_salvage_h :: "heap \<Rightarrow> hval \<Rightarrow> validation" where
  "validateClient_salvage_h h client = validateClient_salvage (value_of h client)"

definition validatePregnancy_h :: "heap \<Rightarrow> hval \<Rightarrow> error + validation" where
  "validatePregnancy_h h pregnancy = validatePregnancy (value_of h pregnancy)"

subsection \<open>Main processing\<close>

text \<open>\<open>outputData\<close> and \<open>results\<close>, which \<open>processData\<close> creates, fills and returns, are
  kept as values beside the heap; an id recorded in \<open>results\<close> is recorded as the value it
  denotes. The state of the loop over the clients is \<open>((outputData, results), heap)\<close>.\<close>

type_synonym run_state = "(hval list \<times> results) \<times> heap"

definition process_client_strict_h :: "hval \<Rightarrow> run_state \<Rightarrow> (error \<times> heap) + run_state" where
  "process_client_strict_h client st =
     (case st of ((outputData, results), h) \<Rightarrow>
      case validateClient_strict_h h client of
        Inl e \<Rightarrow> Inl (e, h)
      | Inr Valid \<Rightarrow>
          (case filterClient_h client h of
             Inl eh \<Rightarrow> Inl eh
           | Inr (filteredClient, h1) \<Rightarrow>
               Inr ((outputData @ [filteredClient],
                     results\<lparr>successCount := successCount results + 1\<rparr>), h1))
      | Inr (Invalid reason) \<Rightarrow>
          (case read_prop_h h client ''id'' of
             Inl e \<Rightarrow> Inl (e, h)
           | Inr cid \<Rightarrow>
               Inr ((outputData,
                     results\<lparr>skippedClientsCount := skippedClientsCount results + 1,
                             skippedClients :=
                               skippedClients results
                                 @ [SkippedClient (map_option (value_of h) cid) reason]\<rparr>), h)))"

definition processData_strict_h :: "hval \<Rightarrow> heap \<Rightarrow> (error \<times> heap) + run_state" where
  "processData_strict_h inputData h =
     (case inputData of
        HRef a \<Rightarrow>
          (case lookup h a of
             Some (HArray clients) \<Rightarrow>
               for_each process_client_strict_h clients
                 (([], initial_results\<lparr>totalClients := length clients\<rparr>), h)
           | other \<Rightarrow> Inl (ProcessExit, h))
      | other \<Rightarrow> Inl (ProcessExit, h))"

fun iterate_h :: "heap \<Rightarrow> hval option \<Rightarrow> error + hval list" where
  "iterate_h h (Some (HRef a)) =
     (case lookup h a of Some (HArray xs) \<Rightarrow> Inr xs | other \<Rightarrow> Inl TypeError)"
| "iterate_h h (Some (HStr s)) = Inr (map (\<lambda>c. HStr [c]) s)"
| "iterate_h h v = Inl TypeError"

text \<open>\<^verbatim>\<open>array.push(v)\<close>.\<close>

fun push_h :: "hval \<Rightarrow> hval \<Rightarrow> heap \<Rightarrow> heap" where
  "push_h (HRef a) v h =
     (case lookup h a of Some (HArray xs) \<Rightarrow> h[a := HArray (xs @ [v])] | other \<Rightarrow> h)"
| "push_h w v h = h"

text \<open>The body of the inner loop, over the state \<open>(results, heap)\<close>; \<open>validPregnancies\<close> is
  the array allocated before the loop.\<close>

definition check_pregnancy_h ::
  "hval \<Rightarrow> hval \<Rightarrow> hval \<Rightarrow> results \<times> heap \<Rightarrow> (error \<times> heap) + (results \<times> heap)" where
  "check_pregnancy_h client validPregnancies pregnancy st =
     (case st of (results, h) \<Rightarrow>
      case validatePregnancy_h h pregnancy of
        Inl e \<Rightarrow> Inl (e, h)
      | Inr Valid \<Rightarrow> Inr (results, push_h validPregnancies pregnancy h)
      | Inr (Invalid reason) \<Rightarrow>
          (case read_prop_h h client ''id'' of
             Inl e \<Rightarrow> Inl (e, h)
           | Inr cid \<Rightarrow>
               (case read_prop_h h pregnancy ''id'' of
                  Inl e \<Rightarrow> Inl (e, h)
                | Inr pid \<Rightarrow>
                    Inr (results\<lparr>skippedPregnanciesCount := skippedPregnanciesCount results + 1,
                                 skippedPregnancies :=
                                   skippedPregnancies results
                                     @ [SkippedPregnancy (map_option (value_of h) cid)
                                          (map_option (value_of h) pid) reason]\<rparr>, h))))"

text \<open>\<^verbatim>\<open>{ ...client, pregnancies: validPregnancies }\<close>: a new object with the own properties
  of \<open>client\<close>, and \<^verbatim>\<open>pregnancies\<close> replaced.\<close>

definition with_pregnancies_h :: "hval \<Rightarrow> hval \<Rightarrow> heap \<Rightarrow> hval \<times> heap" where
  "with_pregnancies_h client validPregnancies h =
     (next_ref h,
      alloc (HObject (hobj_set (own_props_h h client) ''pregnancies'' validPregnancies)) h)"

text \<open>The body of the loop of the salvage \<open>processData\<close> from the loop over the pregnancies
  on, \<open>validPregnancies\<close> being the array allocated just before.\<close>

definition salvage_pregnancies_h ::
  "hval \<Rightarrow> hval \<Rightarrow> run_state \<Rightarrow> (error \<times> heap) + run_state" where
  "salvage_pregnancies_h client validPregnancies st =
     (case st of ((outputData, results), h1) \<Rightarrow>
      case read_prop_h h1 client ''pregnancies'' of
        Inl e \<Rightarrow> Inl (e, h1)
      | Inr pregnancies \<Rightarrow>
      (case iterate_h h1 pregnancies of
        Inl e \<Rightarrow> Inl (e, h1)
      | Inr ps \<Rightarrow>
      (case for_each (check_pregnancy_h client validPregnancies) ps (results, h1) of
        Inl eh \<Rightarrow> Inl eh
      | Inr (results1, h2) \<Rightarrow>
          if get_prop_h h2 validPregnancies ''length'' = Some (HNum 0) then
            (case read_prop_h h2 client ''id'' of
               Inl e \<Rightarrow> Inl (e, h2)
             | Inr cid \<Rightarrow>
                 Inr ((outputData,
                       results1\<lparr>skippedClientsCount := skippedClientsCount results1 + 1,
                                skippedClients :=
                                  skippedClients results1
                                    @ [SkippedClient (map_option (value_of h2) cid)
                                         NoValidPregnancies]\<rparr>), h2))
          else
            (case with_pregnancies_h client validPregnancies h2 of
               (clientWithValidPregnancies, h3) \<Rightarrow>
             case filterClient_h clientWithValidPregnancies h3 of
               Inl eh \<Rightarrow> Inl eh
             | Inr (filteredClient, h4) \<Rightarrow>
                 Inr ((outputData @ [filteredClient],
                       results1\<lparr>successCount := successCount results1 + 1\<rparr>), h4)))))"

definition process_client_salvage_h :: "hval \<Rightarrow> run_state \<Rightarrow> (error \<times> heap) + run_state" where
  "process_client_salvage_h client st =
     (case st of ((outputData, results), h) \<Rightarrow>
      case validateClient_salvage_h h client of
        Invalid reason \<Rightarrow>
          (case read_prop_h h client ''id'' of
             Inl e \<Rightarrow> Inl (e, h)
           | Inr cid \<Rightarrow>
               Inr ((outputData,
                     results\<lparr>skippedClientsCount := skippedClientsCount results + 1,
                             skippedClients :=
                               skippedClients results
                                 @ [SkippedClient (map_option (value_of h) cid) reason]\<rparr>), h))
      | Valid \<Rightarrow>
          salvage_pregnancies_h client (next_ref h) ((outputData, results), alloc (HArray []) h))"

definition processData_salvage_h :: "hval \<Rightarrow> heap \<Rightarrow> (error \<times> heap) + run_state" where
  "processData_salvage_h inputData h =
     (case inputData of
        HRef a \<Rightarrow>
          (case lookup h a of
             Some (HArray clients) \<Rightarrow>
               for_each process_client_salvage_h clients
                 (([], initial_results\<lparr>totalClients := length clients\<rparr>), h)
           | other \<Rightarrow> Inl (ProcessExit, h))
      | other \<Rightarrow> Inl (ProcessExit, h))"

text \<open>Two example heaps. In the first, address 0 holds a dataset of one client with one
  pregnancy, its birth and one child. In the second, address 0 holds a dataset of one client
  with two pregnancies, of which the second has no \<^verbatim>\<open>birth\<close>.\<close>

definition example_heap_strict :: heap where
  "example_heap_strict =
     [HArray [HRef 1],
      HObject [(''id'', HNum 1), (''name'', HStr ''A''), (''pregnancies'', HRef 2)],
      HArray [HRef 3],
      HObject [(''id'', HNum 10), (''notes'', HStr ''n''), (''birth'', HRef 4)],
      HObject [(''id'', HNum 20), (''doctor'', HStr ''d''), (''children'', HRef 5)],
      HArray [HRef 6],
      HObject [(''id'', HNum 30), (''first_name'', HStr ''c'')]]"

definition example_heap :: heap where
  "example_heap =
     [HArray [HRef 1],
      HObject [(''id'', HNum 1), (''name'', HStr ''A''), (''pregnancies'', HRef 2)],
      HArray [HRef 3, HRef 13],
      HObject [(''id'', HNum 10), (''notes'', HStr ''n''), (''data_encr'', HRef 4),
               (''birth'', HRef 5), (''cares_after'', HRef 8), (''cares_after_phone'', HRef 11)],
      HObject [(''secret'', HStr ''s''), (''egt'', HStr ''e'')],
      HObject [(''id'', HNum 20), (''doctor'', HStr ''d''), (''children'', HRef 6)],
      HArray [HRef 7],
      HObject [(''id'', HNum 30), (''first_name'', HStr ''c'')],
      HArray [HRef 9],
      HObject [(''id'', HNum 40), (''comment'', HStr ''c''), (''data_encr'', HRef 10)],
      HObject [(''kind-3-nahrung'', HStr ''m''), (''kind-x-nahrung'', HStr ''y'')],
      HArray [HRef 12],
      HObject [(''id'', HNum 50), (''phone'', HStr ''p'')],
      HObject [(''id'', HNum 11), (''notes'', HStr ''o'')]]"

section \<open>Notions used in the statements\<close>

text \<open>The keys \<open>filterDataEncr\<close> retains: those in the allow-list and, when patterns are
  given, those that match one of them.\<close>

definition keeps_key :: "string list \<Rightarrow> string list option \<Rightarrow> string \<Rightarrow> bool" where
  "keeps_key allowedKeys dynamicPatterns key =
     (key \<in> set allowedKeys \<or>
      (case dynamicPatterns of
         None \<Rightarrow> False
       | Some ps \<Rightarrow> \<exists>pattern \<in> set ps. matchesDynamicPattern key pattern))"

text \<open>A key that is neither \<^verbatim>\<open>length\<close> nor an array index: arrays, strings and the
  other primitives have no such property.\<close>

definition named_key :: "string \<Rightarrow> bool" where
  "named_key k = (k \<noteq> ''length'' \<and> (\<exists>c \<in> set k. \<not> is_digit c))"

text \<open>What \<open>pickProperties\<close> builds from a list of distinct keys: the keys the object has,
  in the order of the list, each with the object's value.\<close>

definition picked :: "json \<Rightarrow> string list \<Rightarrow> (string \<times> json) list" where
  "picked obj keys = List.map_filter (\<lambda>k. map_option (Pair k) (get_prop obj k)) keys"

text \<open>An object is \<open>ordered_by keys\<close> when its keys are a selection of \<open>keys\<close>, in that
  order.\<close>

definition ordered_by :: "string list \<Rightarrow> (string \<times> json) list \<Rightarrow> bool" where
  "ordered_by keys r = (map fst r = filter (\<lambda>k. k \<in> fst ` set r) keys)"

text \<open>The values \<open>pickProperties\<close> returns, and returns unchanged: \<^verbatim>\<open>null\<close>, the primitives,
  and the objects whose keys are a selection of the list.\<close>

definition projected :: "string list \<Rightarrow> json \<Rightarrow> bool" where
  "projected keys v =
     (case v of JObj r \<Rightarrow> ordered_by keys r | JArr xs \<Rightarrow> False | other \<Rightarrow> True)"

text \<open>The \<^verbatim>\<open>data_encr\<close> of a filtered entity: when it is truthy, the encrypted-field filter
  leaves it as it is.\<close>

definition enc_ok :: "string list \<Rightarrow> string list option \<Rightarrow> json \<Rightarrow> bool" where
  "enc_ok al ps r =
     (case get_prop r ''data_encr'' of
        Some d \<Rightarrow> truthy d \<longrightarrow> filterDataEncr d al ps = d
      | None \<Rightarrow> True)"

text \<open>Every element of the array under \<open>key\<close>, if there is an array, satisfies \<open>P\<close>.\<close>

definition elements_ok :: "string \<Rightarrow> (json \<Rightarrow> bool) \<Rightarrow> json \<Rightarrow> bool" where
  "elements_ok key P r =
     (case get_prop r key of Some (JArr xs) \<Rightarrow> list_all P xs | other \<Rightarrow> True)"

definition filtered_careAfterPhone :: "json \<Rightarrow> bool" where
  "filtered_careAfterPhone r = projected whitelist_careAfterPhone r"

definition filtered_careAfter :: "json \<Rightarrow> bool" where
  "filtered_careAfter r =
     (r \<noteq> JNull \<and> projected whitelist_careAfter r \<and>
      enc_ok dataEncr_careAfter (Some careAfterDynamicPatterns) r)"

definition filtered_child :: "json \<Rightarrow> bool" where
  "filtered_child r =
     (r \<noteq> JNull \<and> projected whitelist_child r \<and> enc_ok dataEncr_child None r)"

definition filtered_birth :: "json \<Rightarrow> bool" where
  "filtered_birth r =
     (r = JNull \<or>
      truthy r \<and> projected whitelist_birth r \<and> enc_ok dataEncr_birth None r \<and>
      elements_ok ''children'' filtered_child r)"

definition filtered_pregnancy :: "json \<Rightarrow> bool" where
  "filtered_pregnancy r =
     (r \<noteq> JNull \<and> projected whitelist_pregnancy r \<and> enc_ok dataEncr_pregnancy None r \<and>
      (case get_prop r ''birth'' of Some b \<Rightarrow> truthy b \<longrightarrow> filtered_birth b | None \<Rightarrow> True) \<and>
      elements_ok ''cares_after'' filtered_careAfter r \<and>
      elements_ok ''cares_after_phone'' filtered_careAfterPhone r)"

definition filtered_client :: "json \<Rightarrow> bool" where
  "filtered_client r =
     (r \<noteq> JNull \<and> projected whitelist_client r \<and>
      elements_ok ''pregnancies'' filtered_pregnancy r)"

text \<open>The statement \<^verbatim>\<open>if (filtered.key && Array.isArray(filtered.key)) filtered.key =
  filtered.key.map(G)\<close>, which the filters repeat for each array of entities.\<close>

definition map_field :: "string \<Rightarrow> (json \<Rightarrow> error + json) \<Rightarrow> json \<Rightarrow> error + json" where
  "map_field key G f =
     (case read_prop f key of
        Inl e \<Rightarrow> Inl e
      | Inr (Some (JArr xs)) \<Rightarrow>
          (case map_err G xs of
             Inl e \<Rightarrow> Inl e
           | Inr ys \<Rightarrow> Inr (set_prop f key (JArr ys)))
      | Inr other \<Rightarrow> Inr f)"

text \<open>The statement \<^verbatim>\<open>if (filtered.birth) filtered.birth = filterBirth(filtered.birth)\<close>.\<close>

definition birth_field :: "json \<Rightarrow> error + json" where
  "birth_field f =
     (case read_prop f ''birth'' of
        Inl e \<Rightarrow> Inl e
      | Inr None \<Rightarrow> Inr f
      | Inr (Some birth) \<Rightarrow>
          if truthy birth then
            (case filterBirth birth of
               Inl e \<Rightarrow> Inl e
             | Inr b \<Rightarrow> Inr (set_prop f ''birth'' b))
          else Inr f)"

text \<open>The \<^verbatim>\<open>birth\<close> of a filtered pregnancy: when it is truthy, it is a filtered birth.\<close>

definition birth_ok :: "json \<Rightarrow> bool" where
  "birth_ok r =
     (case get_prop r ''birth'' of Some b \<Rightarrow> truthy b \<longrightarrow> filtered_birth b | None \<Rightarrow> True)"

text \<open>A client record with a property outside the whitelist at every level, for the
  examples.\<close>

definition example_client :: json where
  "example_client = JObj
     [(''name'', JStr ''N''), (''id'', JNum 1),
      (''pregnancies'', JArr [JObj
         [(''id'', JNum 10), (''note'', JStr ''x''),
          (''data_encr'', JObj [(''egt'', JNum 1), (''secret'', JNum 2)]),
          (''birth'', JObj [(''id'', JNum 100), (''weight'', JNum 3),
             (''children'', JArr [JObj [(''id'', JNum 1000), (''name'', JStr ''c'')]])]),
          (''cares_after'', JArr [JObj [(''id'', JNum 5),
             (''data_encr'', JObj [(''kind-5-nahrung'', JStr ''m''), (''kind-5-x'', JNum 0)])]]),
          (''cares_after_phone'', JArr [JObj [(''id'', JNum 6), (''who'', JStr ''w'')]])]])]"

definition example_filtered :: json where
  "example_filtered = JObj
     [(''id'', JNum 1),
      (''pregnancies'', JArr [JObj
         [(''id'', JNum 10),
          (''data_encr'', JObj [(''egt'', JNum 1)]),
          (''birth'', JObj [(''id'', JNum 100),
             (''children'', JArr [JObj [(''id'', JNum 1000)]])]),
          (''cares_after'', JArr [JObj [(''id'', JNum 5),
             (''data_encr'', JObj [(''kind-5-nahrung'', JStr ''m'')])]]),
          (''cares_after_phone'', JArr [JObj [(''id'', JNum 6)]])]])]"

text \<open>An emitted entity is \<open>whitelisted\<close> when it is an object whose keys all belong to
  the whitelist, or a primitive that the filter passed through (never an array).\<close>

definition whitelisted :: "string list \<Rightarrow> json \<Rightarrow> bool" where
  "whitelisted wl v =
     (case v of JObj r \<Rightarrow> set (map fst r) \<subseteq> set wl | JArr xs \<Rightarrow> False | other \<Rightarrow> True)"

text \<open>The \<^verbatim>\<open>data_encr\<close> blob of an emitted entity has only keys of the allow-list or keys
  that match a dynamic pattern.\<close>

definition blob_within :: "string list \<Rightarrow> string list option \<Rightarrow> json \<Rightarrow> bool" where
  "blob_within al ps v =
     (case get_prop v ''data_encr'' of
        Some (JObj b) \<Rightarrow> \<forall>k \<in> set (map fst b). keeps_key al ps k
      | Some (JArr xs) \<Rightarrow> False
      | other \<Rightarrow> True)"

definition closed_careAfterPhone :: "json \<Rightarrow> bool" where
  "closed_careAfterPhone v = whitelisted whitelist_careAfterPhone v"

definition closed_careAfter :: "json \<Rightarrow> bool" where
  "closed_careAfter v =
     (whitelisted whitelist_careAfter v \<and>
      blob_within dataEncr_careAfter (Some careAfterDynamicPatterns) v)"

definition closed_child :: "json \<Rightarrow> bool" where
  "closed_child v = (whitelisted whitelist_child v \<and> blob_within dataEncr_child None v)"

definition closed_birth :: "json \<Rightarrow> bool" where
  "closed_birth v =
     (whitelisted whitelist_birth v \<and> blob_within dataEncr_birth None v \<and>
      elements_ok ''children'' closed_child v)"

definition closed_pregnancy :: "json \<Rightarrow> bool" where
  "closed_pregnancy v =
     (whitelisted whitelist_pregnancy v \<and> blob_within dataEncr_pregnancy None v \<and>
      (case get_prop v ''birth'' of Some b \<Rightarrow> closed_birth b | None \<Rightarrow> True) \<and>
      elements_ok ''cares_after'' closed_careAfter v \<and>
      elements_ok ''cares_after_phone'' closed_careAfterPhone v)"

definition closed_client :: "json \<Rightarrow> bool" where
  "closed_client v =
     (whitelisted whitelist_client v \<and> elements_ok ''pregnancies'' closed_pregnancy v)"

definition example_results :: results where
  "example_results =
     \<lparr>totalClients = 1, successCount = 1, skippedClientsCount = 0, skippedClients = [],
      skippedPregnanciesCount = 0, skippedPregnancies = []\<rparr>"

text \<open>What the strict loop checks of one pregnancy: \<^verbatim>\<open>birth\<close> is neither \<^verbatim>\<open>null\<close> nor
  \<^verbatim>\<open>undefined\<close>, and when \<^verbatim>\<open>birth\<close> is truthy, its \<^verbatim>\<open>children\<close> is neither \<^verbatim>\<open>null\<close>, nor
  \<^verbatim>\<open>undefined\<close>, nor an empty array.\<close>

definition pregnancy_ok_strict :: "json \<Rightarrow> bool" where
  "pregnancy_ok_strict p =
     (case opt_prop (Some p) ''birth'' of
        None \<Rightarrow> False
      | Some birth \<Rightarrow>
          birth \<noteq> JNull \<and>
          (truthy birth \<longrightarrow> isValidValue (opt_prop (Some birth) ''children'') True))"

text \<open>A client whose \<^verbatim>\<open>pregnancies\<close> is a plain object, one whose only pregnancy is
  \<^verbatim>\<open>null\<close>, and one whose only pregnancy has no \<^verbatim>\<open>birth\<close>.\<close>

definition example_object_pregnancies :: json where
  "example_object_pregnancies =
     JObj [(''id'', JNum 1), (''pregnancies'', JObj [(''note'', JStr ''x'')])]"

definition example_null_pregnancy :: json where
  "example_null_pregnancy = JObj [(''id'', JNum 9), (''pregnancies'', JArr [JNull])]"

definition example_no_birth :: json where
  "example_no_birth = JObj [(''id'', JNum 2), (''pregnancies'', JArr [JObj [(''id'', JNum 20)]])]"

text \<open>A pregnancy that the salvage variant keeps, and the entry it records for one it
  does not keep.\<close>

definition pregnancy_valid :: "json \<Rightarrow> bool" where
  "pregnancy_valid pregnancy = (validatePregnancy pregnancy = Inr Valid)"

definition skip_entry :: "json \<Rightarrow> json \<Rightarrow> skipped_pregnancy" where
  "skip_entry client pregnancy =
     SkippedPregnancy (get_prop client ''id'') (get_prop pregnancy ''id'')
       (case validatePregnancy pregnancy of
          Inr (Invalid reason) \<Rightarrow> reason
        | other \<Rightarrow> NoValidPregnancies)"

text \<open>The elements a \<^verbatim>\<open>for ... of\<close> loop over \<^verbatim>\<open>client.pregnancies\<close> visits.\<close>

definition pregnancies_of :: "json \<Rightarrow> json list" where
  "pregnancies_of client =
     (case iterate (get_prop client ''pregnancies'') of Inr ps \<Rightarrow> ps | Inl e \<Rightarrow> [])"

text \<open>A pregnancy record whose arrays of care-after records and of children hold no
  \<^verbatim>\<open>null\<close>: on such a record the pregnancy filter does not throw.\<close>

definition no_null_elements :: "string \<Rightarrow> json \<Rightarrow> bool" where
  "no_null_elements key v = elements_ok key (\<lambda>x. x \<noteq> JNull) v"

definition entities_present :: "json \<Rightarrow> bool" where
  "entities_present pregnancy =
     (pregnancy \<noteq> JNull \<and> no_null_elements ''cares_after'' pregnancy \<and>
      (case get_prop pregnancy ''birth'' of
         Some birth \<Rightarrow> no_null_elements ''children'' birth
       | None \<Rightarrow> True))"

text \<open>The statistics after the pregnancies \<open>ps\<close> of \<open>client\<close> have been checked: one entry
  for each invalid pregnancy, in order.\<close>

definition record_skipped :: "json \<Rightarrow> json list \<Rightarrow> results \<Rightarrow> results" where
  "record_skipped client ps results =
     results\<lparr>skippedPregnanciesCount :=
               skippedPregnanciesCount results + length (filter (\<lambda>p. \<not> pregnancy_valid p) ps),
             skippedPregnancies :=
               skippedPregnancies results @
                 map (skip_entry client) (filter (\<lambda>p. \<not> pregnancy_valid p) ps)\<rparr>"

text \<open>A client with two pregnancies, the first without \<^verbatim>\<open>cares_after\<close>, the second
  complete.\<close>

definition example_incomplete :: json where
  "example_incomplete = JObj
     [(''id'', JNum 70),
      (''birth'', JObj [(''id'', JNum 700), (''children'', JArr [JObj [(''id'', JNum 7000)]])]),
      (''cares_after_phone'', JArr [JObj [(''id'', JNum 71)]])]"

definition example_complete :: json where
  "example_complete = JObj
     [(''id'', JNum 80),
      (''birth'', JObj [(''id'', JNum 800), (''children'', JArr [JObj [(''id'', JNum 8000)]])]),
      (''cares_after'', JArr [JObj [(''id'', JNum 81), (''who'', JStr ''w'')]]),
      (''cares_after_phone'', JArr [JObj [(''id'', JNum 82)]])]"

definition example_two_pregnancies :: json where
  "example_two_pregnancies = JObj
     [(''id'', JNum 7), (''name'', JStr ''N''),
      (''pregnancies'', JArr [example_incomplete, example_complete])]"











text \<open>\<open>unchanged n h h'\<close>: the heap \<open>h'\<close> has every object of \<open>h\<close>, and the objects at the
  addresses below \<open>n\<close> as they are in \<open>h\<close>. \<open>fresh n v\<close>: \<open>v\<close> is no reference to an object
  below \<open>n\<close>. \<open>heap_of r\<close>: the heap that a call leaves, whether it returns or throws.\<close>

definition unchanged :: "nat \<Rightarrow> heap \<Rightarrow> heap \<Rightarrow> bool" where
  "unchanged n h h' = (length h \<le> length h' \<and> take n h' = take n h)"

fun fresh :: "nat \<Rightarrow> hval \<Rightarrow> bool" where
  "fresh n (HRef a) = (n \<le> a)"
| "fresh n v = True"

definition heap_of :: "(error \<times> heap) + ('a \<times> heap) \<Rightarrow> heap" where
  "heap_of r = (case r of Inl (e, h) \<Rightarrow> h | Inr (x, h) \<Rightarrow> h)"

text \<open>What the lemmas below establish of every filter: whatever it is given and whether it
  returns or throws, it leaves the objects below \<open>n\<close> as they are, and what it returns is
  no reference to one of them.\<close>

definition frames :: "(hval \<Rightarrow> heap \<Rightarrow> hval outcome) \<Rightarrow> bool" where
  "frames f =
     (\<forall>n v h. n \<le> length h \<longrightarrow>
        unchanged n h (heap_of (f v h)) \<and> (\<forall>r h'. f v h = Inr (r, h') \<longrightarrow> fresh n r))"

text \<open>The objects the strict run allocates on the first example heap, from address 7 on:
  the filtered client at 7, its pregnancy at 8.\<close>

definition example_strict_objects :: heap where
  "example_strict_objects =
     [HObject [(''id'', HNum 1), (''pregnancies'', HRef 12)],
      HObject [(''id'', HNum 10), (''birth'', HRef 9)],
      HObject [(''id'', HNum 20), (''children'', HRef 11)],
      HObject [(''id'', HNum 30)],
      HArray [HRef 10],
      HArray [HRef 8]]"

text \<open>The objects the salvage run allocates on the second, from address 14 on:
  \<open>validPregnancies\<close> at 14, the client with the valid pregnancies only at 15, the filtered
  client at 16.\<close>

definition example_salvage_objects :: heap where
  "example_salvage_objects =
     [HArray [HRef 3],
      HObject [(''id'', HNum 1), (''name'', HStr ''A''), (''pregnancies'', HRef 14)],
      HObject [(''id'', HNum 1), (''pregnancies'', HRef 27)],
      HObject [(''id'', HNum 10), (''data_encr'', HRef 18), (''birth'', HRef 19),
               (''cares_after'', HRef 24), (''cares_after_phone'', HRef 26)],
      HObject [(''egt'', HStr ''e'')],
      HObject [(''id'', HNum 20), (''children'', HRef 21)],
      HObject [(''id'', HNum 30)],
      HArray [HRef 20],
      HObject [(''id'', HNum 40), (''data_encr'', HRef 23)],
      HObject [(''kind-3-nahrung'', HStr ''m'')],
      HArray [HRef 22],
      HObject [(''id'', HNum 50)],
      HArray [HRef 25],
      HArray [HRef 17]]"

text \<open>A heap whose dataset, at address 0, has a client whose only pregnancy is \<^verbatim>\<open>null\<close>.\<close>

definition example_heap_null :: heap where
  "example_heap_null =
     [HArray [HRef 1],
      HObject [(''id'', HNum 9), (''pregnancies'', HRef 2)],
      HArray [HNull]]"

text \<open>A reference to an object below \<open>n\<close>, or a primitive; and a heap whose objects refer
  to objects of the heap only, as a heap built by \<^verbatim>\<open>JSON.parse\<close> does.\<close>

fun ref_within :: "nat \<Rightarrow> hval \<Rightarrow> bool" where
  "ref_within n (HRef a) = (a < n)"
| "ref_within n v = True"

definition closed_heap :: "heap \<Rightarrow> bool" where
  "closed_heap h =
     list_all
       (\<lambda>ob. case ob of
          HObject kvs \<Rightarrow> list_all (\<lambda>p. ref_within (length h) (snd p)) kvs
        | HArray xs \<Rightarrow> list_all (ref_within (length h)) xs)
       h"

section \<open>The pattern matcher\<close>

lemma regex_test_lits: "regex_test (map Lit p) s \<longleftrightarrow> s = p"
  by (induction p arbitrary: s) (case_tac s; auto)+

lemma regex_test_prefix: "regex_test (map Lit p @ r) s \<longleftrightarrow> (\<exists>t. s = p @ t \<and> regex_test r t)"
proof (induction p arbitrary: s)
  case Nil
  then show ?case by simp
next
  case (Cons c p)
  then show ?case by (cases s) auto
qed

lemma regex_test_digits:
  "regex_test (Digits # map Lit suf) s \<longleftrightarrow>
     (\<exists>ds. ds \<noteq> [] \<and> (\<forall>d \<in> set ds. is_digit d) \<and> s = ds @ suf)"
proof (induction s)
  case Nil
  then show ?case by simp
next
  case (Cons x xs)
  show ?case
  proof
    assume "regex_test (Digits # map Lit suf) (x # xs)"
    then have d: "is_digit x" and alt: "regex_test (map Lit suf) xs \<or> regex_test (Digits # map Lit suf) xs"
      by simp_all
    from alt show "\<exists>ds. ds \<noteq> [] \<and> (\<forall>d \<in> set ds. is_digit d) \<and> x # xs = ds @ suf"
    proof
      assume "regex_test (map Lit suf) xs"
      then have "xs = suf" by (simp add: regex_test_lits)
      with d show ?thesis by (intro exI[of _ "[x]"]) simp
    next
      assume "regex_test (Digits # map Lit suf) xs"
      with Cons obtain ds where "ds \<noteq> []" "\<forall>d \<in> set ds. is_digit d" "xs = ds @ suf" by auto
      with d show ?thesis by (intro exI[of _ "x # ds"]) simp
    qed
  next
    assume "\<exists>ds. ds \<noteq> [] \<and> (\<forall>d \<in> set ds. is_digit d) \<and> x # xs = ds @ suf"
    then obtain ds where ds: "ds \<noteq> []" "\<forall>d \<in> set ds. is_digit d" "x # xs = ds @ suf" by auto
    then obtain e es where e: "ds = e # es" by (cases ds) auto
    with ds have x: "x = e" "xs = es @ suf" "is_digit x" "\<forall>d \<in> set es. is_digit d" by auto
    show "regex_test (Digits # map Lit suf) (x # xs)"
    proof (cases "es = []")
      case True
      with x show ?thesis by (simp add: regex_test_lits)
    next
      case False
      with x Cons have "regex_test (Digits # map Lit suf) xs" by auto
      with x show ?thesis by simp
    qed
  qed
qed

lemma replace_id_first:
  "CHR ''{'' \<notin> set pre \<Longrightarrow> replace_id (pre @ ''{id}'' @ suf) = map Lit pre @ Digits # map Lit suf"
  by (induction pre) auto

lemma replace_id_none:
  "CHR ''{'' \<notin> set p \<Longrightarrow> replace_id p = map Lit p"
  by (induction p) auto

lemma literal_configured_patterns: "\<forall>pattern \<in> set careAfterDynamicPatterns. literal_pattern pattern"
  by (simp add: careAfterDynamicPatterns_def regex_special_def)

lemma matches_placeholder:
  assumes "CHR ''{'' \<notin> set pre"
  shows "matchesDynamicPattern key (pre @ ''{id}'' @ suf) \<longleftrightarrow>
       (\<exists>ds. ds \<noteq> [] \<and> (\<forall>d \<in> set ds. is_digit d) \<and> key = pre @ ds @ suf)"
proof -
  have "matchesDynamicPattern key (pre @ ''{id}'' @ suf) \<longleftrightarrow>
      (\<exists>t. key = pre @ t \<and> regex_test (Digits # map Lit suf) t)"
    unfolding matchesDynamicPattern_def replace_id_first[OF assms] by (rule regex_test_prefix)
  then show ?thesis by (auto simp: regex_test_digits)
qed

lemma matches_plain:
  assumes "CHR ''{'' \<notin> set pattern"
  shows "matchesDynamicPattern key pattern \<longleftrightarrow> key = pattern"
  unfolding matchesDynamicPattern_def replace_id_none[OF assms] by (rule regex_test_lits)

lemma literal_pattern_plain:
  assumes "\<forall>c \<in> set p. \<not> regex_special c"
  shows "literal_pattern p"
  using assms
proof (induction p)
  case Nil
  show ?case by simp
next
  case (Cons c cs)
  then have "c \<noteq> CHR ''{''" by (auto simp: regex_special_def)
  then have ne: "take 4 (c # cs) \<noteq> ''{id}''" by (cases cs) auto
  have "literal_pattern (c # cs) = (\<not> regex_special c \<and> literal_pattern cs)"
    by (simp only: literal_pattern.simps ne if_False)
  with Cons show ?case by simp
qed

lemma literal_pattern_prefix:
  assumes "literal_pattern (pre @ ''{id}'' @ suf)"
  shows "\<forall>c \<in> set pre. \<not> regex_special c"
  using assms
proof (induction pre)
  case Nil
  show ?case by simp
next
  case (Cons c pre)
  let ?s = "c # pre @ ''{id}'' @ suf"
  have at: "?s ! Suc (length pre) = CHR ''{''" by (simp add: nth_append)
  have len: "Suc (length pre) < length ?s" by simp
  show ?case
  proof (cases "take 4 ?s = ''{id}''")
    case True
    have "literal_pattern ?s = (\<forall>d \<in> set (drop 4 ?s). \<not> regex_special d)"
      by (simp only: literal_pattern.simps True if_True simp_thms)
    with Cons.prems have rest: "\<forall>d \<in> set (drop 4 ?s). \<not> regex_special d" by simp
    show ?thesis
    proof (cases "Suc (length pre) < 4")
      case True
      then have "take 4 ?s ! Suc (length pre) = ?s ! Suc (length pre)" by (rule nth_take)
      with \<open>take 4 ?s = ''{id}''\<close> at have "''{id}'' ! Suc (length pre) = CHR ''{''" by simp
      moreover from True have "length pre = 0 \<or> length pre = 1 \<or> length pre = 2" by arith
      ultimately show ?thesis by auto
    next
      case False
      then have "4 + (Suc (length pre) - 4) = Suc (length pre)" by arith
      moreover have "drop 4 ?s ! (Suc (length pre) - 4) = ?s ! (4 + (Suc (length pre) - 4))"
        by (rule nth_drop) simp
      ultimately have "drop 4 ?s ! (Suc (length pre) - 4) = ?s ! Suc (length pre)"
        by (simp only:)
      moreover have "Suc (length pre) - 4 < length (drop 4 ?s)" using False by simp
      ultimately have "CHR ''{'' \<in> set (drop 4 ?s)" using at
        by (metis nth_mem)
      with rest have "\<not> regex_special CHR ''{''" by blast
      then show ?thesis by (simp add: regex_special_def)
    qed
  next
    case False
    have "literal_pattern ?s = (\<not> regex_special c \<and> literal_pattern (pre @ ''{id}'' @ suf))"
      by (simp only: literal_pattern.simps False if_False)
    with Cons.prems have "\<not> regex_special c" and "literal_pattern (pre @ ''{id}'' @ suf)"
      by simp_all
    with Cons.IH show ?thesis by simp
  qed
qed

lemma literal_pattern_no_brace:
  assumes "literal_pattern (pre @ ''{id}'' @ suf)"
  shows "CHR ''{'' \<notin> set pre"
proof
  assume "CHR ''{'' \<in> set pre"
  with literal_pattern_prefix[OF assms] have "\<not> regex_special CHR ''{''" by blast
  then show False by (simp add: regex_special_def)
qed

lemma plain_no_brace:
  assumes "\<forall>c \<in> set p. \<not> regex_special c"
  shows "CHR ''{'' \<notin> set p"
proof
  assume "CHR ''{'' \<in> set p"
  with assms have "\<not> regex_special CHR ''{''" by blast
  then show False by (simp add: regex_special_def)
qed

text \<open>
  Claim C6. The pattern matcher is an anchored match of the whole key, in which the
  placeholder stands for one or more decimal digits: \<open>kind-12-nahrung\<close> matches
  \<open>kind-{id}-nahrung\<close>; \<open>kind-nahrung\<close> (no digits) and \<open>kind-12-nahrungx\<close> (a trailing
  character) do not. For a pattern \<open>pre{id}suf\<close> whose other characters have no meaning in
  the syntax of regular expressions, a key matches exactly when it is \<open>pre\<close>, then a
  non-empty run of decimal digits, then \<open>suf\<close>, and nothing else; such a pattern without
  the placeholder matches itself only. The configured patterns are of this kind.
\<close>

theorem matchesDynamicPattern_exact:
  "matchesDynamicPattern ''kind-12-nahrung'' ''kind-{id}-nahrung'' \<and>
   \<not> matchesDynamicPattern ''kind-nahrung'' ''kind-{id}-nahrung'' \<and>
   \<not> matchesDynamicPattern ''kind-12-nahrungx'' ''kind-{id}-nahrung'' \<and>
   (\<forall>key pre suf. literal_pattern (pre @ ''{id}'' @ suf) \<longrightarrow>
      (matchesDynamicPattern key (pre @ ''{id}'' @ suf) \<longleftrightarrow>
         (\<exists>ds. ds \<noteq> [] \<and> (\<forall>d \<in> set ds. is_digit d) \<and> key = pre @ ds @ suf))) \<and>
   (\<forall>key pattern. (\<forall>c \<in> set pattern. \<not> regex_special c) \<longrightarrow>
      (matchesDynamicPattern key pattern \<longleftrightarrow> key = pattern)) \<and>
   (\<forall>pattern \<in> set careAfterDynamicPatterns. literal_pattern pattern)"
proof (intro conjI allI impI)
  show "matchesDynamicPattern ''kind-12-nahrung'' ''kind-{id}-nahrung''"
    by (simp add: matchesDynamicPattern_def is_digit_def)
  show "\<not> matchesDynamicPattern ''kind-nahrung'' ''kind-{id}-nahrung''"
    by (simp add: matchesDynamicPattern_def is_digit_def)
  show "\<not> matchesDynamicPattern ''kind-12-nahrungx'' ''kind-{id}-nahrung''"
    by (simp add: matchesDynamicPattern_def is_digit_def)
  show "\<forall>pattern \<in> set careAfterDynamicPatterns. literal_pattern pattern"
    by (rule literal_configured_patterns)
next
  fix key pre suf
  assume "literal_pattern (pre @ ''{id}'' @ suf)"
  then have "CHR ''{'' \<notin> set pre" by (rule literal_pattern_no_brace)
  then show "matchesDynamicPattern key (pre @ ''{id}'' @ suf) \<longleftrightarrow>
         (\<exists>ds. ds \<noteq> [] \<and> (\<forall>d \<in> set ds. is_digit d) \<and> key = pre @ ds @ suf)"
    by (rule matches_placeholder)
next
  fix key pattern
  assume "\<forall>c \<in> set pattern. \<not> regex_special c"
  then have "CHR ''{'' \<notin> set pattern" by (rule plain_no_brace)
  then show "matchesDynamicPattern key pattern \<longleftrightarrow> key = pattern"
    by (rule matches_plain)
qed

theorem matchesDynamicPattern_exact_witness:
  "literal_pattern (''kind-'' @ ''{id}'' @ ''-nahrung'') \<and>
   matchesDynamicPattern ''kind-12-nahrung'' (''kind-'' @ ''{id}'' @ ''-nahrung'') \<and>
   (\<exists>ds. ds \<noteq> [] \<and> list_all is_digit ds \<and> ''kind-12-nahrung'' = ''kind-'' @ ds @ ''-nahrung'') \<and>
   list_all (\<lambda>c. \<not> regex_special c) ''stillt'' \<and>
   \<not> matchesDynamicPattern ''stillt2'' ''stillt'' \<and>
   matchesDynamicPattern ''stillt'' ''stillt'' \<and>
   ''kind-{id}-nahrung'' \<in> set careAfterDynamicPatterns \<and>
   literal_pattern ''kind-{id}-nahrung''"
proof -
  have p: "literal_pattern (''kind-'' @ ''{id}'' @ ''-nahrung'')"
    by (simp add: regex_special_def)
  have q: "\<forall>c \<in> set ''stillt''. \<not> regex_special c" by (simp add: regex_special_def)
  have i: "''kind-{id}-nahrung'' \<in> set careAfterDynamicPatterns"
    by (simp add: careAfterDynamicPatterns_def)
  note c = matchesDynamicPattern_exact
  note c4 = c[THEN conjunct2, THEN conjunct2, THEN conjunct2, THEN conjunct1, rule_format, OF p,
      of "''kind-12-nahrung''"]
  note c5 = c[THEN conjunct2, THEN conjunct2, THEN conjunct2, THEN conjunct2, THEN conjunct1]
  note c5a = c5[THEN spec[where x = "''stillt2''"], THEN spec[where x = "''stillt''"], THEN mp, OF q]
  note c5b = c5[THEN spec[where x = "''stillt''"], THEN spec[where x = "''stillt''"], THEN mp, OF q]
  note c6 = c[THEN conjunct2, THEN conjunct2, THEN conjunct2, THEN conjunct2, THEN conjunct2,
      rule_format, OF i]
  have m: "matchesDynamicPattern ''kind-12-nahrung'' (''kind-'' @ ''{id}'' @ ''-nahrung'')"
    using c[THEN conjunct1] by simp
  from m c4
  have e: "\<exists>ds. ds \<noteq> [] \<and> list_all is_digit ds \<and> ''kind-12-nahrung'' = ''kind-'' @ ds @ ''-nahrung''"
    by (simp only: list_all_iff)
  from q have q': "list_all (\<lambda>c. \<not> regex_special c) ''stillt''" by (simp only: list_all_iff)
  have n: "\<not> matchesDynamicPattern ''stillt2'' ''stillt''"
    using c5a by simp
  have y: "matchesDynamicPattern ''stillt'' ''stillt''"
    using c5b by simp
  from p m e q' n y i c6 show ?thesis by (intro conjI)
qed

section \<open>Entity validation\<close>

lemma isValidValue_iff:
  "isValidValue v chk \<longleftrightarrow> v \<noteq> None \<and> v \<noteq> Some JNull \<and> \<not> (chk \<and> v = Some (JArr []))"
  by (cases "(v, chk)" rule: isValidValue.cases) auto

lemma validateEntity_find:
  "validateEntity entity required chk =
     (case find (\<lambda>field. \<not> isValidValue (opt_prop entity field) chk) required of
        None \<Rightarrow> EntityValid
      | Some field \<Rightarrow> EntityInvalid field)"
  by (induction required) auto

lemma validateEntity_first:
  assumes "\<forall>g \<in> set before. isValidValue (opt_prop entity g) chk"
    and "\<not> isValidValue (opt_prop entity field) chk"
  shows "validateEntity entity (before @ field # later) chk = EntityInvalid field"
  using assms by (induction before) auto

lemma validateEntity_valid_iff:
  "validateEntity entity required chk = EntityValid \<longleftrightarrow>
     (\<forall>field \<in> set required. isValidValue (opt_prop entity field) chk)"
  by (induction required) auto

lemma validateEntity_absent:
  "entity = None \<or> entity = Some JNull \<Longrightarrow>
     validateEntity entity (field # later) chk = EntityInvalid field"
  by auto

text \<open>
  Claim C5. Entity validation goes through the required required in order and returns at
  the first invalid one, naming it: the result is the first field of the list whose
  value is invalid (or valid, if there is none), so it does not depend on the required
  after that one. A value is invalid exactly when it is \<^verbatim>\<open>null\<close> or \<^verbatim>\<open>undefined\<close>, or,
  with the non-empty-array check on, an array of length zero; the empty string, zero
  and \<^verbatim>\<open>false\<close> are valid. An entity that is itself \<^verbatim>\<open>null\<close> or \<^verbatim>\<open>undefined\<close> is read as
  having no field at all, so its first required field is reported.
\<close>

theorem validateEntity_first_invalid:
  "validateEntity entity required chk =
     (case find (\<lambda>field. \<not> isValidValue (opt_prop entity field) chk) required of
        None \<Rightarrow> EntityValid
      | Some field \<Rightarrow> EntityInvalid field) \<and>
   (\<forall>before field later later'.
      (\<forall>g \<in> set before. isValidValue (opt_prop entity g) chk) \<and>
      \<not> isValidValue (opt_prop entity field) chk \<longrightarrow>
        validateEntity entity (before @ field # later) chk = EntityInvalid field \<and>
        validateEntity entity (before @ field # later') chk = EntityInvalid field) \<and>
   (\<forall>v. isValidValue v chk \<longleftrightarrow>
      v \<noteq> None \<and> v \<noteq> Some JNull \<and> \<not> (chk \<and> v = Some (JArr []))) \<and>
   isValidValue (Some (JStr [])) chk \<and> isValidValue (Some (JNum 0)) chk \<and>
   isValidValue (Some (JBool False)) chk \<and>
   (\<forall>field later. validateEntity None (field # later) chk = EntityInvalid field \<and>
      validateEntity (Some JNull) (field # later) chk = EntityInvalid field)"
proof (intro conjI allI impI)
  show "validateEntity entity required chk =
     (case find (\<lambda>field. \<not> isValidValue (opt_prop entity field) chk) required of
        None \<Rightarrow> EntityValid
      | Some field \<Rightarrow> EntityInvalid field)"
    by (rule validateEntity_find)
next
  fix before field later later'
  assume a: "(\<forall>g \<in> set before. isValidValue (opt_prop entity g) chk) \<and>
      \<not> isValidValue (opt_prop entity field) chk"
  then show "validateEntity entity (before @ field # later) chk = EntityInvalid field"
    by (intro validateEntity_first) simp_all
  from a show "validateEntity entity (before @ field # later') chk = EntityInvalid field"
    by (intro validateEntity_first) simp_all
next
  fix v
  show "isValidValue v chk \<longleftrightarrow> v \<noteq> None \<and> v \<noteq> Some JNull \<and> \<not> (chk \<and> v = Some (JArr []))"
    by (rule isValidValue_iff)
qed simp_all

theorem validateEntity_first_invalid_witness:
  "validateEntity (Some (JObj [(''birth'', JNum 0), (''cares_after'', JArr [])]))
     [''birth'', ''cares_after'', ''cares_after_phone''] True = EntityInvalid ''cares_after'' \<and>
   validateEntity (Some (JObj [(''birth'', JNum 0), (''cares_after'', JArr [])]))
     [''birth'', ''cares_after'', ''cares_after_phone''] False = EntityInvalid ''cares_after_phone''"
proof -
  let ?e = "Some (JObj [(''birth'', JNum 0), (''cares_after'', JArr [])])"
  note c = validateEntity_first_invalid[of ?e _ True, THEN conjunct2, THEN conjunct1, rule_format,
      of "[''birth'']" "''cares_after''" "[''cares_after_phone'']" "[]"]
  have "(\<forall>g \<in> set [''birth'']. isValidValue (opt_prop ?e g) True) \<and>
      \<not> isValidValue (opt_prop ?e ''cares_after'') True" by simp
  from c[OF this] have 1: "validateEntity ?e [''birth'', ''cares_after'', ''cares_after_phone''] True
      = EntityInvalid ''cares_after''" by simp
  note d = validateEntity_first_invalid[of ?e _ False, THEN conjunct2, THEN conjunct1, rule_format,
      of "[''birth'', ''cares_after'']" "''cares_after_phone''" "[]" "[]"]
  have "(\<forall>g \<in> set [''birth'', ''cares_after'']. isValidValue (opt_prop ?e g) False) \<and>
      \<not> isValidValue (opt_prop ?e ''cares_after_phone'') False" by simp
  from d[OF this] have 2: "validateEntity ?e [''birth'', ''cares_after'', ''cares_after_phone''] False
      = EntityInvalid ''cares_after_phone''" by simp
  from 1 2 show ?thesis by (intro conjI)
qed

section \<open>Objects under construction\<close>

lemma obj_set_fresh: "key \<notin> fst ` set r \<Longrightarrow> obj_set r key v = r @ [(key, v)]"
  by (induction r) auto

lemma map_of_obj_set: "map_of (obj_set r key v) k = (if k = key then Some v else map_of r k)"
  by (induction r) auto

lemma keys_obj_set:
  "map fst (obj_set r key v) = (if key \<in> fst ` set r then map fst r else map fst r @ [key])"
proof (induction r)
  case Nil
  then show ?case by simp
next
  case (Cons p r)
  obtain k w where p: "p = (k, w)" by (cases p)
  show ?case
  proof (cases "k = key")
    case True
    with p show ?thesis by simp
  next
    case False
    with p Cons show ?thesis by (cases "key \<in> fst ` set r") auto
  qed
qed

lemma set_keys_obj_set: "fst ` set (obj_set r key v) = insert key (fst ` set r)"
proof -
  have "set (map fst (obj_set r key v)) = insert key (set (map fst r))"
    unfolding keys_obj_set by auto
  then show ?thesis by simp
qed

lemma distinct_obj_set: "distinct (map fst r) \<Longrightarrow> distinct (map fst (obj_set r key v))"
  by (simp add: keys_obj_set)

lemma obj_set_same: "map_of r key = Some v \<Longrightarrow> obj_set r key v = r"
  by (induction r) (auto split: if_splits)

lemma map_of_keys: "map_of r k \<noteq> None \<longleftrightarrow> k \<in> fst ` set r"
  by (simp add: map_of_eq_None_iff)

section \<open>The encrypted-field filter\<close>

lemma encr_loop_step:
  "encr_loop d al ps (key # keys) result =
     encr_loop d al ps keys
       (if keeps_key al ps key then
          (case get_prop d key of Some v \<Rightarrow> obj_set result key v | None \<Rightarrow> result)
        else result)"
  by (cases ps) (auto simp: keeps_key_def list_ex_iff)

lemma encr_loop_filter:
  assumes "distinct (map fst (xs @ ys))" and "fst ` set result \<subseteq> fst ` set xs"
    and "\<forall>p \<in> set ys. get_prop d (fst p) = Some (snd p)"
  shows "encr_loop d al ps (map fst ys) result =
           result @ filter (\<lambda>(k, v). keeps_key al ps k) ys"
  using assms
proof (induction ys arbitrary: xs result)
  case Nil
  then show ?case by simp
next
  case (Cons p ys)
  obtain k v where p: "p = (k, v)" by (cases p)
  from Cons.prems p have fresh: "k \<notin> fst ` set result" by auto
  from Cons.prems p have g: "get_prop d k = Some v" by auto
  have d: "distinct (map fst ((xs @ [p]) @ ys))" using Cons.prems by simp
  have rest: "\<forall>q \<in> set ys. get_prop d (fst q) = Some (snd q)" using Cons.prems by simp
  show ?case
  proof (cases "keeps_key al ps k")
    case True
    have sub: "fst ` set (result @ [(k, v)]) \<subseteq> fst ` set (xs @ [p])"
      using Cons.prems p by auto
    from Cons.IH[OF d sub rest] True g fresh p show ?thesis
      by (simp add: encr_loop_step obj_set_fresh del: encr_loop.simps)
  next
    case False
    have sub: "fst ` set result \<subseteq> fst ` set (xs @ [p])" using Cons.prems by auto
    from Cons.IH[OF d sub rest] False p show ?thesis
      by (simp add: encr_loop_step del: encr_loop.simps)
  qed
qed

lemma filterDataEncr_object:
  assumes "distinct (map fst kvs)"
  shows "filterDataEncr (JObj kvs) al ps = JObj (filter (\<lambda>(k, v). keeps_key al ps k) kvs)"
proof -
  have "\<forall>p \<in> set kvs. get_prop (JObj kvs) (fst p) = Some (snd p)"
    using assms by auto
  from encr_loop_filter[of "[]" kvs "[]" "JObj kvs", OF _ _ this] assms
  show ?thesis by (simp add: filterDataEncr_def)
qed




section \<open>Client-level validation\<close>

lemma client_check_iff:
  "validateEntity (Some client) required_client True = EntityValid \<longleftrightarrow>
     (\<exists>v. opt_prop (Some client) ''pregnancies'' = Some v \<and> v \<noteq> JNull \<and> v \<noteq> JArr [])"
  by (auto simp: required_client_def isValidValue_iff)

lemma client_check_field:
  "validateEntity (Some client) required_client True = EntityInvalid f \<Longrightarrow> f = ''pregnancies''"
  by (auto simp: required_client_def split: if_splits)

lemma pregnancies_loop_reason:
  "pregnancies_loop v i \<noteq> Inr (Invalid (MissingClientField f))"
proof (induction v i rule: pregnancies_loop.induct)
  case (1 pregnancies i)
  show ?case
    apply (subst pregnancies_loop.simps)
    using 1
    apply (auto simp: Let_def split: entity_validation.splits sum.splits)
    done
qed

lemma validateClient_strict_passed:
  assumes "opt_prop (Some client) ''pregnancies'' = Some v" "v \<noteq> JNull" "v \<noteq> JArr []"
  shows "validateClient_strict client = pregnancies_loop v 0"
proof -
  from assms have c: "validateEntity (Some client) required_client True = EntityValid"
    using client_check_iff by blast
  from assms have n: "client \<noteq> JNull" by auto
  with assms have g: "get_prop client ''pregnancies'' = Some v" by (cases client) auto
  from c n g assms show ?thesis by (simp add: validateClient_strict_def read_prop_def)
qed

text \<open>
  Claim C10. A client whose \<^verbatim>\<open>pregnancies\<close> field is present and is neither \<^verbatim>\<open>null\<close> nor an
  empty array passes the client-level check of both variants, whatever kind of value the
  field holds: the check on \<^verbatim>\<open>CONFIG.required.client\<close> succeeds, the salvage
  \<open>validateClient\<close> returns valid, and the strict \<open>validateClient\<close> goes on to its loop
  over the pregnancies, which never reports a missing client field.
\<close>

theorem client_level_check_non_arrays:
  assumes "opt_prop (Some client) ''pregnancies'' = Some v" and "v \<noteq> JNull" and "v \<noteq> JArr []"
  shows "validateEntity (Some client) required_client True = EntityValid \<and>
         validateClient_salvage client = Valid \<and>
         validateClient_strict client = pregnancies_loop v 0 \<and>
         (\<forall>f. validateClient_strict client \<noteq> Inr (Invalid (MissingClientField f)))"
proof -
  from assms have c: "validateEntity (Some client) required_client True = EntityValid"
    using client_check_iff by blast
  then have s: "validateClient_salvage client = Valid"
    by (simp add: validateClient_salvage_def)
  have l: "validateClient_strict client = pregnancies_loop v 0"
    using assms by (rule validateClient_strict_passed)
  from c s l show ?thesis by (simp add: pregnancies_loop_reason)
qed

theorem client_level_check_non_arrays_witness:
  "validateClient_salvage (JObj [(''id'', JNum 1), (''pregnancies'', JObj [(''a'', JNum 1)])]) = Valid \<and>
   validateClient_strict (JObj [(''id'', JNum 1), (''pregnancies'', JObj [(''a'', JNum 1)])]) = Inr Valid \<and>
   validateClient_salvage (JObj [(''id'', JNum 2), (''pregnancies'', JStr ''ab'')]) = Valid \<and>
   validateClient_strict (JObj [(''id'', JNum 2), (''pregnancies'', JStr ''ab'')])
     = Inr (Invalid (MissingPregnancyFieldAt 0 None ''birth''))"
proof -
  let ?c = "JObj [(''id'', JNum 1), (''pregnancies'', JObj [(''a'', JNum 1)])]"
  let ?d = "JObj [(''id'', JNum 2), (''pregnancies'', JStr ''ab'')]"
  have 1: "opt_prop (Some ?c) ''pregnancies'' = Some (JObj [(''a'', JNum 1)])" by simp
  have 2: "opt_prop (Some ?d) ''pregnancies'' = Some (JStr ''ab'')" by simp
  note c = client_level_check_non_arrays[OF 1, simplified]
  note d = client_level_check_non_arrays[OF 2, simplified]
  have lc: "pregnancies_loop (JObj [(''a'', JNum 1)]) 0 = Inr Valid"
    by (subst pregnancies_loop.simps) (simp add: js_less_def)
  have s0: "show_nat 0 = ''0''" by (simp add: show_nat.simps digit_char_def)
  have ld: "pregnancies_loop (JStr ''ab'') 0 = Inr (Invalid (MissingPregnancyFieldAt 0 None ''birth''))"
    by (subst pregnancies_loop.simps)
      (simp add: js_less_def s0 required_pregnancy_strict_def read_prop_def)
  from c d lc ld show ?thesis by simp
qed

section \<open>Projection\<close>

lemma digit_char_is_digit: "d < 10 \<Longrightarrow> is_digit (digit_char d)"
  by (auto simp: digit_char_def is_digit_def numeral_eq_Suc less_Suc_eq)

lemma show_nat_digits: "\<forall>c \<in> set (show_nat n). is_digit c"
proof (induction n rule: show_nat.induct)
  case (1 n)
  show ?case
  proof (cases "n < 10")
    case True
    then show ?thesis by (simp add: show_nat.simps[of n] digit_char_is_digit)
  next
    case False
    with 1 show ?thesis by (simp add: show_nat.simps[of n] digit_char_is_digit)
  qed
qed

lemma named_key_not_index: "named_key k \<Longrightarrow> k \<noteq> show_nat n"
  using show_nat_digits[of n] by (auto simp: named_key_def)

lemma map_of_indices_named:
  assumes "named_key k"
  shows "map_of (zip (map show_nat ns) vs) k = None"
proof -
  have "k \<notin> set (map show_nat ns)" using named_key_not_index[OF assms] by auto
  then have "k \<notin> fst ` set (zip (map show_nat ns) vs)"
    by (metis in_set_zipE image_iff prod.collapse)
  then show ?thesis by (simp add: map_of_eq_None_iff)
qed

lemma get_prop_named:
  assumes "named_key k" and "get_prop v k = Some w"
  obtains kvs where "v = JObj kvs" and "map_of kvs k = Some w"
proof (cases v)
  case (JObj kvs)
  with assms that show ?thesis by simp
next
  case (JArr xs)
  with assms show ?thesis by (simp add: named_key_def map_of_indices_named[OF assms(1)])
next
  case (JStr s)
  with assms show ?thesis by (simp add: named_key_def map_of_indices_named[OF assms(1)])
qed (use assms in auto)

lemma picked_Nil: "picked obj [] = []"
  by (simp add: picked_def map_filter_simps)

lemma picked_Cons:
  "picked obj (k # ks) =
     (case get_prop obj k of None \<Rightarrow> picked obj ks | Some v \<Rightarrow> (k, v) # picked obj ks)"
  by (simp add: picked_def map_filter_simps split: option.splits)

lemma keys_picked: "map fst (picked obj ks) = filter (\<lambda>k. get_prop obj k \<noteq> None) ks"
  by (induction ks) (auto simp: picked_Nil picked_Cons split: option.splits)

lemma pick_loop_picked:
  assumes "distinct ks" and "set ks \<inter> fst ` set acc = {}"
  shows "pick_loop obj ks acc = acc @ picked obj ks"
  using assms
proof (induction ks arbitrary: acc)
  case Nil
  then show ?case by (simp add: picked_Nil)
next
  case (Cons k ks)
  show ?case
  proof (cases "get_prop obj k")
    case None
    with Cons show ?thesis by (simp add: picked_Cons)
  next
    case (Some v)
    from Cons.prems have fresh: "k \<notin> fst ` set acc" by auto
    have "set ks \<inter> fst ` set (acc @ [(k, v)]) = {}" using Cons.prems by auto
    with Cons.IH[of "acc @ [(k, v)]"] Cons.prems
    have "pick_loop obj ks (acc @ [(k, v)]) = (acc @ [(k, v)]) @ picked obj ks" by simp
    with Some fresh show ?thesis by (simp add: picked_Cons obj_set_fresh)
  qed
qed

lemma pickProperties_object:
  assumes "distinct ks" and "truthy obj" and "typeof_object obj"
  shows "pickProperties obj ks = JObj (picked obj ks)"
  using assms pick_loop_picked[of ks "[]" obj] by (simp add: pickProperties_def)

lemma pickProperties_other:
  "\<not> truthy obj \<or> \<not> typeof_object obj \<Longrightarrow> pickProperties obj ks = obj"
  by (simp add: pickProperties_def)

lemma ordered_by_picked: "ordered_by ks (picked obj ks)"
proof -
  have "fst ` set (picked obj ks) = {k \<in> set ks. get_prop obj k \<noteq> None}"
    using keys_picked[of obj ks] by (metis list.set_map set_filter)
  then have "filter (\<lambda>k. k \<in> fst ` set (picked obj ks)) ks = filter (\<lambda>k. get_prop obj k \<noteq> None) ks"
    by (intro filter_cong) auto
  then show ?thesis by (simp add: ordered_by_def keys_picked)
qed

lemma ordered_by_subset: "ordered_by ks r \<Longrightarrow> fst ` set r \<subseteq> set ks"
proof -
  assume "ordered_by ks r"
  then have "set (map fst r) = set (filter (\<lambda>k. k \<in> fst ` set r) ks)" by (simp add: ordered_by_def)
  then show ?thesis by auto
qed

lemma ordered_by_distinct: "distinct ks \<Longrightarrow> ordered_by ks r \<Longrightarrow> distinct (map fst r)"
  by (simp add: ordered_by_def)

lemma distinct_keys_rebuild:
  "distinct (map fst r) \<Longrightarrow> List.map_filter (\<lambda>k. map_option (Pair k) (map_of r k)) (map fst r) = r"
proof (induction r)
  case Nil
  then show ?case by (simp add: map_filter_simps)
next
  case (Cons p r)
  obtain k v where p: "p = (k, v)" by (cases p)
  from Cons.prems p have notin: "k \<notin> fst ` set r" by auto
  have "List.map_filter (\<lambda>k'. map_option (Pair k') (map_of (p # r) k')) (map fst r)
      = List.map_filter (\<lambda>k'. map_option (Pair k') (map_of r k')) (map fst r)"
    unfolding map_filter_def using notin p by (intro arg_cong2[where f = map] filter_cong refl map_cong) auto
  with Cons p show ?case by (simp add: map_filter_simps)
qed

lemma map_filter_filter:
  "List.map_filter f (filter (\<lambda>x. f x \<noteq> None) xs) = List.map_filter f xs"
  by (induction xs) (auto simp: map_filter_simps split: option.splits)

lemma picked_self:
  assumes "distinct ks" and "ordered_by ks r"
  shows "picked (JObj r) ks = r"
proof -
  have d: "distinct (map fst r)" using assms by (rule ordered_by_distinct)
  have "filter (\<lambda>k. k \<in> fst ` set r) ks = filter (\<lambda>k. map_option (Pair k) (map_of r k) \<noteq> None) ks"
    by (intro filter_cong) (auto simp: map_of_eq_None_iff)
  with assms(2) have e: "map fst r = filter (\<lambda>k. map_option (Pair k) (map_of r k) \<noteq> None) ks"
    by (simp only: ordered_by_def)
  have "List.map_filter (\<lambda>k. map_option (Pair k) (map_of r k)) (map fst r)
      = List.map_filter (\<lambda>k. map_option (Pair k) (map_of r k)) ks"
    unfolding e by (rule map_filter_filter)
  with distinct_keys_rebuild[OF d] show ?thesis by (simp only: picked_def get_prop.simps)
qed

lemma ordered_by_obj_set:
  "ordered_by ks r \<Longrightarrow> k \<in> fst ` set r \<Longrightarrow> ordered_by ks (obj_set r k v)"
  by (simp add: ordered_by_def keys_obj_set set_keys_obj_set insert_absorb)

lemma projected_pickProperties: "distinct ks \<Longrightarrow> projected ks (pickProperties v ks)"
  by (cases v) (simp_all add: pickProperties_object pickProperties_other projected_def ordered_by_picked)

lemma pickProperties_projected: "distinct ks \<Longrightarrow> projected ks v \<Longrightarrow> pickProperties v ks = v"
  by (cases v) (simp_all add: pickProperties_object pickProperties_other projected_def picked_self)

lemma pickProperties_idem:
  "distinct ks \<Longrightarrow> pickProperties (pickProperties v ks) ks = pickProperties v ks"
  by (simp add: pickProperties_projected projected_pickProperties)

lemma pickProperties_null: "pickProperties v ks = JNull \<longleftrightarrow> v = JNull"
  by (cases v) (simp_all add: pickProperties_def)

lemma projected_set_prop:
  "projected ks f \<Longrightarrow> get_prop f k \<noteq> None \<Longrightarrow> named_key k \<Longrightarrow> projected ks (set_prop f k v)"
proof (cases f)
  case (JObj r)
  assume "projected ks f" "get_prop f k \<noteq> None"
  with JObj show ?thesis
    by (auto simp: projected_def map_of_eq_None_iff intro!: ordered_by_obj_set)
qed (simp_all add: projected_def)

lemma get_prop_set_prop:
  "named_key k \<Longrightarrow> get_prop f k \<noteq> None \<Longrightarrow>
     get_prop (set_prop f k v) k' = (if k' = k then Some v else get_prop f k')"
proof -
  assume n: "named_key k" and g: "get_prop f k \<noteq> None"
  then obtain w where "get_prop f k = Some w" by auto
  with n obtain kvs where "f = JObj kvs" by (rule get_prop_named)
  then show ?thesis by (simp add: map_of_obj_set)
qed

lemma set_prop_same: "get_prop f k = Some v \<Longrightarrow> set_prop f k v = f"
  by (cases f) (simp_all add: obj_set_same)

lemma set_prop_null: "set_prop f k v = JNull \<longleftrightarrow> f = JNull"
  by (cases f) simp_all

lemma truthy_set_prop: "truthy (set_prop f k v) = truthy f"
  by (cases f) simp_all

section \<open>Idempotence of the encrypted-field filter\<close>

lemma encr_loop_invariant:
  assumes "distinct (map fst acc)" and "\<forall>k \<in> fst ` set acc. keeps_key al ps k"
  shows "distinct (map fst (encr_loop d al ps keys acc)) \<and>
         (\<forall>k \<in> fst ` set (encr_loop d al ps keys acc). keeps_key al ps k)"
  using assms
proof (induction keys arbitrary: acc)
  case Nil
  then show ?case by simp
next
  case (Cons key keys)
  define acc' where "acc' = (if keeps_key al ps key then
          (case get_prop d key of Some v \<Rightarrow> obj_set acc key v | None \<Rightarrow> acc) else acc)"
  have 1: "distinct (map fst acc')" using Cons.prems(1)
    by (simp add: acc'_def distinct_obj_set split: option.splits)
  have 2: "\<forall>k \<in> fst ` set acc'. keeps_key al ps k"
  proof (cases "keeps_key al ps key")
    case False
    with Cons.prems show ?thesis by (simp add: acc'_def)
  next
    case True
    show ?thesis
    proof (cases "get_prop d key")
      case None
      with True Cons.prems show ?thesis by (simp add: acc'_def)
    next
      case (Some v)
      with True Cons.prems(2) show ?thesis by (simp add: acc'_def set_keys_obj_set)
    qed
  qed
  have "encr_loop d al ps (key # keys) acc = encr_loop d al ps keys acc'"
    unfolding acc'_def by (rule encr_loop_step)
  then show ?case using Cons.IH[OF 1 2] by metis
qed

lemma filterDataEncr_result:
  assumes "filterDataEncr d al ps = JObj r"
  shows "(\<exists>kvs. d = JObj kvs) \<or> (\<exists>xs. d = JArr xs) \<Longrightarrow>
           distinct (map fst r) \<and> (\<forall>k \<in> fst ` set r. keeps_key al ps k)"
  using assms encr_loop_invariant[of "[]" al ps d "map fst (own_props d)"]
  by (auto simp: filterDataEncr_def)

lemma filterDataEncr_idem:
  "filterDataEncr (filterDataEncr d al ps) al ps = filterDataEncr d al ps"
proof (cases "truthy d \<and> typeof_object d")
  case False
  then show ?thesis by (auto simp: filterDataEncr_def)
next
  case True
  then obtain r where r: "filterDataEncr d al ps = JObj r" by (simp add: filterDataEncr_def)
  from True have "(\<exists>kvs. d = JObj kvs) \<or> (\<exists>xs. d = JArr xs)" by (cases d) auto
  from filterDataEncr_result[OF r this]
  have dst: "distinct (map fst r)" and keep: "\<forall>k \<in> fst ` set r. keeps_key al ps k" by auto
  from keep have "filter (\<lambda>(k, v). keeps_key al ps k) r = r"
    by (intro filter_True) auto
  with filterDataEncr_object[OF dst, of al ps] r show ?thesis by simp
qed

lemma truthy_filterDataEncr: "truthy (filterDataEncr d al ps) = truthy d"
  by (cases d) (simp_all add: filterDataEncr_def)

section \<open>What the entity filters return\<close>

lemma named_keys:
  "named_key ''data_encr''" "named_key ''children''" "named_key ''birth''"
  "named_key ''cares_after''" "named_key ''cares_after_phone''" "named_key ''pregnancies''"
  by (simp_all add: named_key_def is_digit_def)

lemma distinct_whitelists:
  "distinct whitelist_client" "distinct whitelist_pregnancy" "distinct whitelist_birth"
  "distinct whitelist_child" "distinct whitelist_careAfter" "distinct whitelist_careAfterPhone"
  by (simp_all add: whitelist_client_def whitelist_pregnancy_def whitelist_birth_def
      whitelist_child_def whitelist_careAfter_def whitelist_careAfterPhone_def)

subsection \<open>Mapping a filter over an array\<close>

lemma map_err_result:
  assumes "map_err G xs = Inr ys" and "\<And>x y. G x = Inr y \<Longrightarrow> P y"
  shows "list_all P ys"
  using assms(1)
proof (induction xs arbitrary: ys)
  case Nil
  then show ?case by simp
next
  case (Cons x xs)
  then show ?case using assms(2) by (auto split: sum.splits)
qed


lemma map_err_fixed: "list_all (\<lambda>x. G x = Inr x) xs \<Longrightarrow> map_err G xs = Inr xs"
  by (induction xs) auto

lemma map_err_total: "list_all (\<lambda>x. \<exists>y. G x = Inr y) xs \<Longrightarrow> \<exists>ys. map_err G xs = Inr ys"
  by (induction xs) auto

lemma map_err_pure: "map_err (\<lambda>x. Inr (g x)) xs = Inr (map g xs)"
  by (induction xs) auto

subsection \<open>The steps of a filter\<close>

lemma enc_step_result:
  assumes "projected wl f" and "filter_data_encr_field f al ps = Inr r"
  shows "r \<noteq> JNull" and "projected wl r" and "enc_ok al ps r" and "truthy r = truthy f"
    and "\<And>k. k \<noteq> ''data_encr'' \<Longrightarrow> get_prop r k = get_prop f k"
proof -
  from assms(2) have fn: "f \<noteq> JNull"
    by (auto simp: filter_data_encr_field_def read_prop_def)
  have all: "r \<noteq> JNull \<and> projected wl r \<and> enc_ok al ps r \<and> truthy r = truthy f \<and>
      (\<forall>k. k \<noteq> ''data_encr'' \<longrightarrow> get_prop r k = get_prop f k)"
  proof (cases "get_prop f ''data_encr''")
    case None
    with assms fn show ?thesis
      by (simp add: filter_data_encr_field_def read_prop_def enc_ok_def)
  next
    case (Some d)
    show ?thesis
    proof (cases "truthy d")
      case False
      with Some assms fn show ?thesis
        by (simp add: filter_data_encr_field_def read_prop_def enc_ok_def)
    next
      case True
      with Some assms(2) fn have r: "r = set_prop f ''data_encr'' (filterDataEncr d al ps)"
        by (simp add: filter_data_encr_field_def read_prop_def)
      have g: "get_prop f ''data_encr'' \<noteq> None" using Some by simp
      have "projected wl r" unfolding r using assms(1) g named_keys(1) by (rule projected_set_prop)
      moreover have "r \<noteq> JNull" unfolding r using fn by (simp add: set_prop_null)
      moreover have "enc_ok al ps r" unfolding r enc_ok_def
        by (simp add: get_prop_set_prop[OF named_keys(1) g] filterDataEncr_idem)
      moreover have "truthy r = truthy f" unfolding r by (rule truthy_set_prop)
      moreover have "\<forall>k. k \<noteq> ''data_encr'' \<longrightarrow> get_prop r k = get_prop f k"
        unfolding r by (simp add: get_prop_set_prop[OF named_keys(1) g])
      ultimately show ?thesis by simp
    qed
  qed
  from all show "r \<noteq> JNull" "projected wl r" "enc_ok al ps r" "truthy r = truthy f"
    "\<And>k. k \<noteq> ''data_encr'' \<Longrightarrow> get_prop r k = get_prop f k" by simp_all
qed

lemma enc_step_fixed:
  assumes "r \<noteq> JNull" and "enc_ok al ps r"
  shows "filter_data_encr_field r al ps = Inr r"
proof (cases "get_prop r ''data_encr''")
  case None
  with assms show ?thesis by (simp add: filter_data_encr_field_def read_prop_def)
next
  case (Some d)
  with assms show ?thesis
    by (simp add: filter_data_encr_field_def read_prop_def enc_ok_def set_prop_same)
qed

lemma map_field_result:
  assumes "projected wl f" and "f \<noteq> JNull" and "named_key key" and "map_field key G f = Inr r"
    and "\<And>x y. G x = Inr y \<Longrightarrow> P y"
  shows "r \<noteq> JNull" and "projected wl r" and "elements_ok key P r" and "truthy r = truthy f"
    and "\<And>k. k \<noteq> key \<Longrightarrow> get_prop r k = get_prop f k"
proof -
  have all: "r \<noteq> JNull \<and> projected wl r \<and> elements_ok key P r \<and> truthy r = truthy f \<and>
      (\<forall>k. k \<noteq> key \<longrightarrow> get_prop r k = get_prop f k)"
  proof (cases "\<exists>xs. get_prop f key = Some (JArr xs)")
    case False
    with assms(2,4) have "r = f"
      by (auto simp: map_field_def read_prop_def split: option.splits json.splits)
    with False assms(1,2) show ?thesis
      by (auto simp: elements_ok_def split: option.splits json.splits)
  next
    case True
    then obtain xs where xs: "get_prop f key = Some (JArr xs)" by auto
    with assms(2,4) obtain ys where ys: "map_err G xs = Inr ys" and r: "r = set_prop f key (JArr ys)"
      by (auto simp: map_field_def read_prop_def split: sum.splits)
    have g: "get_prop f key \<noteq> None" using xs by simp
    have "projected wl r" unfolding r using assms(1) g assms(3) by (rule projected_set_prop)
    moreover have "r \<noteq> JNull" unfolding r using assms(2) by (simp add: set_prop_null)
    moreover have "elements_ok key P r" unfolding r elements_ok_def
      using map_err_result[OF ys assms(5)] by (simp add: get_prop_set_prop[OF assms(3) g])
    moreover have "truthy r = truthy f" unfolding r by (rule truthy_set_prop)
    moreover have "\<forall>k. k \<noteq> key \<longrightarrow> get_prop r k = get_prop f k"
      unfolding r by (simp add: get_prop_set_prop[OF assms(3) g])
    ultimately show ?thesis by simp
  qed
  from all show "r \<noteq> JNull" "projected wl r" "elements_ok key P r" "truthy r = truthy f"
    "\<And>k. k \<noteq> key \<Longrightarrow> get_prop r k = get_prop f k" by simp_all
qed

lemma map_field_fixed:
  assumes "r \<noteq> JNull" and "elements_ok key P r" and "\<And>x. P x \<Longrightarrow> G x = Inr x"
  shows "map_field key G r = Inr r"
proof (cases "\<exists>xs. get_prop r key = Some (JArr xs)")
  case False
  with assms(1) show ?thesis
    by (auto simp: map_field_def read_prop_def split: option.splits json.splits)
next
  case True
  then obtain xs where xs: "get_prop r key = Some (JArr xs)" by auto
  with assms(2) have "list_all P xs" by (simp add: elements_ok_def)
  then have "list_all (\<lambda>x. G x = Inr x) xs" using assms(3) by (simp add: list_all_iff)
  then have "map_err G xs = Inr xs" by (rule map_err_fixed)
  with xs assms(1) show ?thesis by (simp add: map_field_def read_prop_def set_prop_same)
qed

lemma enc_ok_cong: "get_prop r ''data_encr'' = get_prop f ''data_encr'' \<Longrightarrow> enc_ok al ps r = enc_ok al ps f"
  by (simp add: enc_ok_def)

lemma elements_ok_cong: "get_prop r key = get_prop f key \<Longrightarrow> elements_ok key P r = elements_ok key P f"
  by (simp add: elements_ok_def)

subsection \<open>Leaf entities\<close>

lemma filterCareAfterPhone_filtered: "filtered_careAfterPhone (filterCareAfterPhone v)"
  by (simp add: filtered_careAfterPhone_def filterCareAfterPhone_def projected_pickProperties
      distinct_whitelists)

lemma filterCareAfterPhone_fixed: "filtered_careAfterPhone r \<Longrightarrow> filterCareAfterPhone r = r"
  by (simp add: filtered_careAfterPhone_def filterCareAfterPhone_def pickProperties_projected
      distinct_whitelists)

lemma filterChild_filtered:
  assumes "filterChild v = Inr r"
  shows "filtered_child r"
proof -
  have p: "projected whitelist_child (pickProperties v whitelist_child)"
    by (simp add: projected_pickProperties distinct_whitelists)
  from assms have e: "filter_data_encr_field (pickProperties v whitelist_child) dataEncr_child None = Inr r"
    by (simp add: filterChild_def)
  from enc_step_result(1-3)[OF p e] show ?thesis by (simp add: filtered_child_def)
qed

lemma filterChild_fixed:
  assumes "filtered_child r"
  shows "filterChild r = Inr r"
proof -
  from assms have "pickProperties r whitelist_child = r"
    by (simp add: filtered_child_def pickProperties_projected distinct_whitelists)
  with assms show ?thesis by (simp add: filterChild_def filtered_child_def enc_step_fixed)
qed

lemma filterCareAfter_filtered:
  assumes "filterCareAfter v = Inr r"
  shows "filtered_careAfter r"
proof -
  have p: "projected whitelist_careAfter (pickProperties v whitelist_careAfter)"
    by (simp add: projected_pickProperties distinct_whitelists)
  from assms have e: "filter_data_encr_field (pickProperties v whitelist_careAfter)
      dataEncr_careAfter (Some careAfterDynamicPatterns) = Inr r"
    by (simp add: filterCareAfter_def)
  from enc_step_result(1-3)[OF p e] show ?thesis by (simp add: filtered_careAfter_def)
qed

lemma filterCareAfter_fixed:
  assumes "filtered_careAfter r"
  shows "filterCareAfter r = Inr r"
proof -
  from assms have "pickProperties r whitelist_careAfter = r"
    by (simp add: filtered_careAfter_def pickProperties_projected distinct_whitelists)
  with assms show ?thesis by (simp add: filterCareAfter_def filtered_careAfter_def enc_step_fixed)
qed

subsection \<open>Birth\<close>

lemma filterBirth_steps:
  "filterBirth birth =
     (if \<not> truthy birth then Inr JNull
      else case filter_data_encr_field (pickProperties birth whitelist_birth) dataEncr_birth None of
             Inl e \<Rightarrow> Inl e
           | Inr filtered \<Rightarrow> map_field ''children'' filterChild filtered)"
  by (simp add: filterBirth_def map_field_def split: sum.splits)

lemma truthy_pickProperties: "truthy (pickProperties v ks) = truthy v"
  by (cases v) (simp_all add: pickProperties_def)

lemma filterBirth_filtered:
  assumes "filterBirth v = Inr r"
  shows "filtered_birth r"
proof (cases "truthy v")
  case False
  with assms show ?thesis by (simp add: filterBirth_steps filtered_birth_def)
next
  case True
  let ?f0 = "pickProperties v whitelist_birth"
  have p0: "projected whitelist_birth ?f0"
    by (simp add: projected_pickProperties distinct_whitelists)
  from assms True obtain f1 where
    e: "filter_data_encr_field ?f0 dataEncr_birth None = Inr f1" and
    m: "map_field ''children'' filterChild f1 = Inr r"
    by (auto simp: filterBirth_steps split: sum.splits)
  note s1 = enc_step_result[OF p0 e]
  note s2 = map_field_result[OF s1(2) s1(1) named_keys(2) m filterChild_filtered]
  have "truthy r" using s2(4) s1(4) True by (simp add: truthy_pickProperties)
  moreover have "enc_ok dataEncr_birth None r"
    using s1(3) s2(5)[where k = "''data_encr''"] by (simp add: enc_ok_def)
  ultimately show ?thesis using s2(2,3) by (simp add: filtered_birth_def)
qed

lemma filterBirth_fixed:
  assumes "filtered_birth r"
  shows "filterBirth r = Inr r"
proof (cases "r = JNull")
  case True
  then show ?thesis by (simp add: filterBirth_steps)
next
  case False
  with assms have t: "truthy r" and p: "projected whitelist_birth r"
    and e: "enc_ok dataEncr_birth None r" and c: "elements_ok ''children'' filtered_child r"
    by (simp_all add: filtered_birth_def)
  from p have "pickProperties r whitelist_birth = r"
    by (simp add: pickProperties_projected distinct_whitelists)
  moreover have "filter_data_encr_field r dataEncr_birth None = Inr r"
    using False e by (rule enc_step_fixed)
  moreover have "map_field ''children'' filterChild r = Inr r"
    using False c filterChild_fixed by (rule map_field_fixed)
  ultimately show ?thesis using t by (simp add: filterBirth_steps)
qed

lemma filterBirth_truthy: "truthy v \<Longrightarrow> filterBirth v = Inr r \<Longrightarrow> truthy r"
proof -
  assume t: "truthy v" and f: "filterBirth v = Inr r"
  let ?f0 = "pickProperties v whitelist_birth"
  have p0: "projected whitelist_birth ?f0"
    by (simp add: projected_pickProperties distinct_whitelists)
  from f t obtain f1 where
    e: "filter_data_encr_field ?f0 dataEncr_birth None = Inr f1" and
    m: "map_field ''children'' filterChild f1 = Inr r"
    by (auto simp: filterBirth_steps split: sum.splits)
  note s1 = enc_step_result[OF p0 e]
  note s2 = map_field_result[OF s1(2) s1(1) named_keys(2) m filterChild_filtered]
  show "truthy r" using s2(4) s1(4) t by (simp add: truthy_pickProperties)
qed

subsection \<open>Pregnancy\<close>

lemma filterPregnancy_steps:
  "filterPregnancy pregnancy =
     (case filter_data_encr_field (pickProperties pregnancy whitelist_pregnancy)
             dataEncr_pregnancy None of
        Inl e \<Rightarrow> Inl e
      | Inr f1 \<Rightarrow>
          (case birth_field f1 of
             Inl e \<Rightarrow> Inl e
           | Inr f2 \<Rightarrow>
               (case map_field ''cares_after'' filterCareAfter f2 of
                  Inl e \<Rightarrow> Inl e
                | Inr f3 \<Rightarrow>
                    map_field ''cares_after_phone'' (\<lambda>x. Inr (filterCareAfterPhone x)) f3)))"
  by (simp add: filterPregnancy_def map_field_def birth_field_def map_err_pure
      split: sum.splits option.splits json.splits)

lemma birth_field_result:
  assumes "projected wl f" and "f \<noteq> JNull" and "birth_field f = Inr r"
  shows "r \<noteq> JNull" and "projected wl r" and "birth_ok r"
    and "\<And>k. k \<noteq> ''birth'' \<Longrightarrow> get_prop r k = get_prop f k"
proof -
  have all: "r \<noteq> JNull \<and> projected wl r \<and> birth_ok r \<and>
      (\<forall>k. k \<noteq> ''birth'' \<longrightarrow> get_prop r k = get_prop f k)"
  proof (cases "get_prop f ''birth''")
    case None
    with assms show ?thesis by (simp add: birth_field_def read_prop_def birth_ok_def)
  next
    case (Some birth)
    show ?thesis
    proof (cases "truthy birth")
      case False
      with Some assms show ?thesis by (simp add: birth_field_def read_prop_def birth_ok_def)
    next
      case True
      with Some assms(2,3) obtain b where b: "filterBirth birth = Inr b"
        and r: "r = set_prop f ''birth'' b"
        by (auto simp: birth_field_def read_prop_def split: sum.splits)
      have g: "get_prop f ''birth'' \<noteq> None" using Some by simp
      have "projected wl r" unfolding r using assms(1) g named_keys(3) by (rule projected_set_prop)
      moreover have "r \<noteq> JNull" unfolding r using assms(2) by (simp add: set_prop_null)
      moreover have "birth_ok r" unfolding r birth_ok_def
        using filterBirth_filtered[OF b] by (simp add: get_prop_set_prop[OF named_keys(3) g])
      moreover have "\<forall>k. k \<noteq> ''birth'' \<longrightarrow> get_prop r k = get_prop f k"
        unfolding r by (simp add: get_prop_set_prop[OF named_keys(3) g])
      ultimately show ?thesis by simp
    qed
  qed
  from all show "r \<noteq> JNull" "projected wl r" "birth_ok r"
    "\<And>k. k \<noteq> ''birth'' \<Longrightarrow> get_prop r k = get_prop f k" by simp_all
qed

lemma birth_field_fixed:
  assumes "r \<noteq> JNull" and "birth_ok r"
  shows "birth_field r = Inr r"
proof (cases "get_prop r ''birth''")
  case None
  with assms show ?thesis by (simp add: birth_field_def read_prop_def)
next
  case (Some b)
  with assms show ?thesis
    by (simp add: birth_field_def read_prop_def birth_ok_def filterBirth_fixed set_prop_same)
qed

lemma filtered_pregnancy_iff:
  "filtered_pregnancy r \<longleftrightarrow>
     r \<noteq> JNull \<and> projected whitelist_pregnancy r \<and> enc_ok dataEncr_pregnancy None r \<and>
     birth_ok r \<and> elements_ok ''cares_after'' filtered_careAfter r \<and>
     elements_ok ''cares_after_phone'' filtered_careAfterPhone r"
  by (simp add: filtered_pregnancy_def birth_ok_def)

lemma filterPregnancy_filtered:
  assumes "filterPregnancy v = Inr r"
  shows "filtered_pregnancy r"
proof -
  let ?f0 = "pickProperties v whitelist_pregnancy"
  have p0: "projected whitelist_pregnancy ?f0"
    by (simp add: projected_pickProperties distinct_whitelists)
  from assms obtain f1 f2 f3 where
    e: "filter_data_encr_field ?f0 dataEncr_pregnancy None = Inr f1" and
    b: "birth_field f1 = Inr f2" and
    m: "map_field ''cares_after'' filterCareAfter f2 = Inr f3" and
    n: "map_field ''cares_after_phone'' (\<lambda>x. Inr (filterCareAfterPhone x)) f3 = Inr r"
    by (auto simp: filterPregnancy_steps split: sum.splits)
  note s1 = enc_step_result[OF p0 e]
  note s2 = birth_field_result[OF s1(2) s1(1) b]
  note s3 = map_field_result[OF s2(2) s2(1) named_keys(4) m filterCareAfter_filtered]
  have ph: "\<And>x y. Inr (filterCareAfterPhone x) = (Inr y :: error + json) \<Longrightarrow> filtered_careAfterPhone y"
    using filterCareAfterPhone_filtered by auto
  note s4 = map_field_result[OF s3(2) s3(1) named_keys(5) n ph]
  have "enc_ok dataEncr_pregnancy None r"
    using s1(3) s2(4)[where k = "''data_encr''"] s3(5)[where k = "''data_encr''"]
      s4(5)[where k = "''data_encr''"] by (simp add: enc_ok_def)
  moreover have "birth_ok r"
    using s2(3) s3(5)[where k = "''birth''"] s4(5)[where k = "''birth''"]
    by (simp add: birth_ok_def)
  moreover have "elements_ok ''cares_after'' filtered_careAfter r"
    using s3(3) s4(5)[where k = "''cares_after''"] by (simp add: elements_ok_def)
  ultimately show ?thesis using s4(1,2,3) by (simp add: filtered_pregnancy_iff)
qed

lemma filterPregnancy_fixed:
  assumes "filtered_pregnancy r"
  shows "filterPregnancy r = Inr r"
proof -
  from assms have n: "r \<noteq> JNull" and p: "projected whitelist_pregnancy r"
    and e: "enc_ok dataEncr_pregnancy None r" and b: "birth_ok r"
    and c: "elements_ok ''cares_after'' filtered_careAfter r"
    and d: "elements_ok ''cares_after_phone'' filtered_careAfterPhone r"
    by (simp_all add: filtered_pregnancy_iff)
  from p have "pickProperties r whitelist_pregnancy = r"
    by (simp add: pickProperties_projected distinct_whitelists)
  moreover have "filter_data_encr_field r dataEncr_pregnancy None = Inr r"
    using n e by (rule enc_step_fixed)
  moreover have "birth_field r = Inr r" using n b by (rule birth_field_fixed)
  moreover have "map_field ''cares_after'' filterCareAfter r = Inr r"
    using n c filterCareAfter_fixed by (rule map_field_fixed)
  moreover have "map_field ''cares_after_phone'' (\<lambda>x. Inr (filterCareAfterPhone x)) r = Inr r"
    using n d by (rule map_field_fixed) (simp add: filterCareAfterPhone_fixed)
  ultimately show ?thesis by (simp add: filterPregnancy_steps)
qed

subsection \<open>Client\<close>

lemma filterClient_steps:
  "filterClient client =
     map_field ''pregnancies'' filterPregnancy (pickProperties client whitelist_client)"
  by (simp add: filterClient_def map_field_def Let_def)

lemma filterClient_filtered:
  assumes "filterClient v = Inr r"
  shows "filtered_client r"
proof -
  let ?f0 = "pickProperties v whitelist_client"
  have p0: "projected whitelist_client ?f0"
    by (simp add: projected_pickProperties distinct_whitelists)
  from assms have m: "map_field ''pregnancies'' filterPregnancy ?f0 = Inr r"
    by (simp add: filterClient_steps)
  then have n0: "?f0 \<noteq> JNull" by (auto simp: map_field_def read_prop_def)
  from map_field_result(1-3)[OF p0 n0 named_keys(6) m filterPregnancy_filtered]
  show ?thesis by (simp add: filtered_client_def)
qed

lemma filterClient_fixed:
  assumes "filtered_client r"
  shows "filterClient r = Inr r"
proof -
  from assms have n: "r \<noteq> JNull" and p: "projected whitelist_client r"
    and c: "elements_ok ''pregnancies'' filtered_pregnancy r"
    by (simp_all add: filtered_client_def)
  from p have "pickProperties r whitelist_client = r"
    by (simp add: pickProperties_projected distinct_whitelists)
  moreover have "map_field ''pregnancies'' filterPregnancy r = Inr r"
    using n c filterPregnancy_fixed by (rule map_field_fixed)
  ultimately show ?thesis by (simp add: filterClient_steps)
qed

section \<open>Idempotence\<close>

lemma filterClient_example: "filterClient example_client = Inr example_filtered"
  unfolding example_client_def example_filtered_def by code_simp

text \<open>
  Claim C8. Filtering is idempotent: whatever the client filter returns, the client
  filter returns it unchanged, and so do the filters of pregnancies, births, children
  and care-after records, the care-after-phone filter and the encrypted-field filter;
  hence filtering every client of an already filtered dataset gives the same dataset.
  (A filter that throws returns nothing to filter again.)
\<close>

theorem filters_idempotent:
  "(\<forall>r. filterClient client = Inr r \<longrightarrow> filterClient r = Inr r) \<and>
   (\<forall>r. filterPregnancy pregnancy = Inr r \<longrightarrow> filterPregnancy r = Inr r) \<and>
   (\<forall>r. filterBirth birth = Inr r \<longrightarrow> filterBirth r = Inr r) \<and>
   (\<forall>r. filterChild child = Inr r \<longrightarrow> filterChild r = Inr r) \<and>
   (\<forall>r. filterCareAfter careAfter = Inr r \<longrightarrow> filterCareAfter r = Inr r) \<and>
   filterCareAfterPhone (filterCareAfterPhone careAfterPhone) = filterCareAfterPhone careAfterPhone \<and>
   filterDataEncr (filterDataEncr dataEncr allowedKeys dynamicPatterns) allowedKeys dynamicPatterns
     = filterDataEncr dataEncr allowedKeys dynamicPatterns \<and>
   (\<forall>filtered. map_err filterClient clients = Inr filtered \<longrightarrow>
      map_err filterClient filtered = Inr filtered)"
proof (intro conjI allI impI)
  fix r assume "filterClient client = Inr r"
  then show "filterClient r = Inr r" by (intro filterClient_fixed filterClient_filtered)
next
  fix r assume "filterPregnancy pregnancy = Inr r"
  then show "filterPregnancy r = Inr r" by (intro filterPregnancy_fixed filterPregnancy_filtered)
next
  fix r assume "filterBirth birth = Inr r"
  then show "filterBirth r = Inr r" by (intro filterBirth_fixed filterBirth_filtered)
next
  fix r assume "filterChild child = Inr r"
  then show "filterChild r = Inr r" by (intro filterChild_fixed filterChild_filtered)
next
  fix r assume "filterCareAfter careAfter = Inr r"
  then show "filterCareAfter r = Inr r" by (intro filterCareAfter_fixed filterCareAfter_filtered)
next
  show "filterCareAfterPhone (filterCareAfterPhone careAfterPhone) = filterCareAfterPhone careAfterPhone"
    by (intro filterCareAfterPhone_fixed filterCareAfterPhone_filtered)
next
  show "filterDataEncr (filterDataEncr dataEncr allowedKeys dynamicPatterns) allowedKeys dynamicPatterns
     = filterDataEncr dataEncr allowedKeys dynamicPatterns"
    by (rule filterDataEncr_idem)
next
  fix filtered assume "map_err filterClient clients = Inr filtered"
  then have "list_all filtered_client filtered"
    by (rule map_err_result) (rule filterClient_filtered)
  then have "list_all (\<lambda>x. filterClient x = Inr x) filtered"
    by (simp add: list_all_iff filterClient_fixed)
  then show "map_err filterClient filtered = Inr filtered" by (rule map_err_fixed)
qed

theorem filters_idempotent_witness:
  "filterClient example_client = Inr example_filtered \<and>
   example_filtered \<noteq> example_client \<and>
   filterClient example_filtered = Inr example_filtered"
proof -
  note c = filters_idempotent[of example_client, THEN conjunct1, rule_format,
      OF filterClient_example]
  have "example_filtered \<noteq> example_client"
    by (simp add: example_client_def example_filtered_def)
  with c filterClient_example show ?thesis by (intro conjI)
qed

section \<open>Whitelist closure\<close>

lemma projected_whitelisted: "projected wl v \<Longrightarrow> whitelisted wl v"
  using ordered_by_subset by (cases v) (auto simp: projected_def whitelisted_def)

lemma enc_ok_blob_within:
  assumes "enc_ok al ps v"
  shows "blob_within al ps v"
proof (cases "get_prop v ''data_encr''")
  case None
  then show ?thesis by (simp add: blob_within_def)
next
  case (Some d)
  show ?thesis
  proof (cases d)
    case (JObj b)
    with Some assms have f: "filterDataEncr (JObj b) al ps = JObj b" by (simp add: enc_ok_def)
    from filterDataEncr_result[OF f] have "\<forall>k \<in> fst ` set b. keeps_key al ps k" by simp
    with Some JObj show ?thesis by (simp add: blob_within_def)
  next
    case (JArr xs)
    with Some assms have "filterDataEncr (JArr xs) al ps = JArr xs" by (simp add: enc_ok_def)
    then show ?thesis by (simp add: filterDataEncr_def)
  qed (use Some in \<open>simp_all add: blob_within_def\<close>)
qed

lemma elements_ok_mono:
  "elements_ok key P v \<Longrightarrow> (\<And>x. P x \<Longrightarrow> Q x) \<Longrightarrow> elements_ok key Q v"
  by (auto simp: elements_ok_def list_all_iff split: option.splits json.splits)

lemma filtered_closed_careAfterPhone: "filtered_careAfterPhone v \<Longrightarrow> closed_careAfterPhone v"
  by (simp add: filtered_careAfterPhone_def closed_careAfterPhone_def projected_whitelisted)

lemma filtered_closed_careAfter: "filtered_careAfter v \<Longrightarrow> closed_careAfter v"
  by (simp add: filtered_careAfter_def closed_careAfter_def projected_whitelisted enc_ok_blob_within)

lemma filtered_closed_child: "filtered_child v \<Longrightarrow> closed_child v"
  by (simp add: filtered_child_def closed_child_def projected_whitelisted enc_ok_blob_within)

lemma get_prop_named_None:
  assumes "named_key k" and "\<not> typeof_object v \<or> v = JNull"
  shows "get_prop v k = None"
proof (cases "get_prop v k")
  case (Some w)
  with assms(1) obtain kvs where "v = JObj kvs" by (auto elim: get_prop_named)
  with assms(2) show ?thesis by simp
qed simp

lemma closed_primitive:
  assumes "\<not> typeof_object v \<or> v = JNull" and "named_key key"
  shows "whitelisted wl v \<and> blob_within al ps v \<and> elements_ok key P v"
proof -
  have 1: "get_prop v ''data_encr'' = None"
    using named_keys(1) assms(1) by (rule get_prop_named_None)
  have 2: "get_prop v key = None"
    using assms(2,1) by (rule get_prop_named_None)
  from assms(1) have "whitelisted wl v" by (cases v) (auto simp: whitelisted_def)
  with 1 2 show ?thesis by (simp add: blob_within_def elements_ok_def)
qed

lemma filtered_closed_birth: "filtered_birth v \<Longrightarrow> closed_birth v"
proof (cases "v = JNull")
  case True
  then show ?thesis using closed_primitive[of v "''children''"] named_keys(2)
    by (simp add: closed_birth_def)
next
  case False
  assume "filtered_birth v"
  with False show ?thesis
    by (auto simp: filtered_birth_def closed_birth_def projected_whitelisted enc_ok_blob_within
        intro: elements_ok_mono filtered_closed_child)
qed

lemma closed_birth_value:
  assumes "projected whitelist_pregnancy v" and "birth_ok v" and "get_prop v ''birth'' = Some b"
  shows "closed_birth b"
proof (cases "truthy b")
  case True
  with assms show ?thesis by (simp add: birth_ok_def filtered_closed_birth)
next
  case False
  then have "\<not> typeof_object b \<or> b = JNull" by (cases b) auto
  then show ?thesis using closed_primitive[of b "''children''"] named_keys(2)
    by (simp add: closed_birth_def)
qed

lemma filtered_closed_pregnancy:
  assumes "filtered_pregnancy v"
  shows "closed_pregnancy v"
proof -
  from assms have p: "projected whitelist_pregnancy v"
    and e: "enc_ok dataEncr_pregnancy None v" and b: "birth_ok v"
    and c: "elements_ok ''cares_after'' filtered_careAfter v"
    and d: "elements_ok ''cares_after_phone'' filtered_careAfterPhone v"
    by (simp_all add: filtered_pregnancy_iff)
  have "case get_prop v ''birth'' of Some b \<Rightarrow> closed_birth b | None \<Rightarrow> True"
    using closed_birth_value[OF p b] by (simp split: option.splits)
  moreover have "elements_ok ''cares_after'' closed_careAfter v"
    using c filtered_closed_careAfter by (rule elements_ok_mono)
  moreover have "elements_ok ''cares_after_phone'' closed_careAfterPhone v"
    using d filtered_closed_careAfterPhone by (rule elements_ok_mono)
  ultimately show ?thesis using p e
    by (simp add: closed_pregnancy_def projected_whitelisted enc_ok_blob_within)
qed

lemma filtered_closed_client: "filtered_client v \<Longrightarrow> closed_client v"
  by (auto simp: filtered_client_def closed_client_def projected_whitelisted
      intro: elements_ok_mono filtered_closed_pregnancy)

lemma filterClient_closed: "filterClient client = Inr r \<Longrightarrow> closed_client r"
  by (intro filtered_closed_client filterClient_filtered)

subsection \<open>The output of a run\<close>

lemma for_each_invariant:
  assumes "for_each body xs st = Inr st'" and "I st"
    and "\<And>x s s'. I s \<Longrightarrow> body x s = Inr s' \<Longrightarrow> I s'"
  shows "I st'"
  using assms(1,2)
proof (induction xs arbitrary: st)
  case Nil
  then show ?case by simp
next
  case (Cons x xs)
  then show ?case using assms(3) by (auto split: sum.splits)
qed

lemma process_client_strict_output:
  assumes "process_client_strict client (out, res) = Inr (out', res')"
  shows "out' = out \<or> (\<exists>fc. filterClient client = Inr fc \<and> out' = out @ [fc])"
  using assms
  by (auto simp: process_client_strict_def split: sum.splits validation.splits)

lemma process_client_salvage_output:
  assumes "process_client_salvage client (out, res) = Inr (out', res')"
  shows "out' = out \<or>
    (\<exists>vp fc. filterClient (with_pregnancies client vp) = Inr fc \<and> out' = out @ [fc])"
  using assms
  by (auto simp: process_client_salvage_def split: sum.splits validation.splits if_splits) blast+

lemma processData_strict_closed:
  assumes "processData_strict inputData = Inr (out, res)"
  shows "list_all closed_client out"
proof -
  from assms obtain clients where
    f: "for_each process_client_strict clients ([], initial_results\<lparr>totalClients := length clients\<rparr>)
        = Inr (out, res)"
    by (auto simp: processData_strict_def split: json.splits)
  have "list_all closed_client (fst (out, res))"
  proof (rule for_each_invariant[OF f, where I = "\<lambda>s. list_all closed_client (fst s)"])
    show "list_all closed_client (fst ([], initial_results\<lparr>totalClients := length clients\<rparr>))"
      by simp
  next
    fix x and s s' :: "json list \<times> results"
    assume i: "list_all closed_client (fst s)" and b: "process_client_strict x s = Inr s'"
    obtain o1 r1 o2 r2 where s: "s = (o1, r1)" "s' = (o2, r2)" by (cases s, cases s')
    from process_client_strict_output[OF b[unfolded s]] i s
    show "list_all closed_client (fst s')"
      by (auto dest: filterClient_closed)
  qed
  then show ?thesis by simp
qed

lemma processData_salvage_closed:
  assumes "processData_salvage inputData = Inr (out, res)"
  shows "list_all closed_client out"
proof -
  from assms obtain clients where
    f: "for_each process_client_salvage clients ([], initial_results\<lparr>totalClients := length clients\<rparr>)
        = Inr (out, res)"
    by (auto simp: processData_salvage_def split: json.splits)
  have "list_all closed_client (fst (out, res))"
  proof (rule for_each_invariant[OF f, where I = "\<lambda>s. list_all closed_client (fst s)"])
    show "list_all closed_client (fst ([], initial_results\<lparr>totalClients := length clients\<rparr>))"
      by simp
  next
    fix x and s s' :: "json list \<times> results"
    assume i: "list_all closed_client (fst s)" and b: "process_client_salvage x s = Inr s'"
    obtain o1 r1 o2 r2 where s: "s = (o1, r1)" "s' = (o2, r2)" by (cases s, cases s')
    from process_client_salvage_output[OF b[unfolded s]] i s
    show "list_all closed_client (fst s')"
      by (auto dest: filterClient_closed)
  qed
  then show ?thesis by simp
qed

lemma filterDataEncr_keys:
  assumes "filterDataEncr d al ps = JObj b"
  shows "\<forall>k \<in> set (map fst b). keeps_key al ps k"
proof -
  from assms have "(\<exists>kvs. d = JObj kvs) \<or> (\<exists>xs. d = JArr xs)"
    by (cases d) (auto simp: filterDataEncr_def)
  from filterDataEncr_result[OF assms this] show ?thesis by simp
qed

lemma processData_salvage_example:
  "processData_salvage (JArr [example_client]) = Inr ([example_filtered], example_results)"
  unfolding example_client_def example_filtered_def example_results_def by code_simp

lemma processData_strict_example:
  "processData_strict (JArr [example_client]) = Inr ([example_filtered], example_results)"
  unfolding example_client_def example_filtered_def example_results_def by code_simp

text \<open>
  Claim C3. Whitelist closure: whatever a filter emits for an entity is an object whose
  keys all belong to the whitelist of the entity's type (or a primitive passed through),
  its \<^verbatim>\<open>data_encr\<close> blob, when it is an object, has only keys of the type's allow-list or,
  for care-after records only, keys matching a dynamic pattern, and the same holds of
  every entity nested in it: the elements of \<^verbatim>\<open>pregnancies\<close>, \<^verbatim>\<open>children\<close>, \<^verbatim>\<open>cares_after\<close> and
  \<^verbatim>\<open>cares_after_phone\<close> and the \<^verbatim>\<open>birth\<close>. Every client in the output of a run, in either
  variant, is closed in this sense.
\<close>

theorem whitelist_closure:
  "(\<forall>r. filterClient client = Inr r \<longrightarrow> closed_client r) \<and>
   (\<forall>r. filterPregnancy pregnancy = Inr r \<longrightarrow> closed_pregnancy r) \<and>
   (\<forall>r. filterBirth birth = Inr r \<longrightarrow> closed_birth r) \<and>
   (\<forall>r. filterChild child = Inr r \<longrightarrow> closed_child r) \<and>
   (\<forall>r. filterCareAfter careAfter = Inr r \<longrightarrow> closed_careAfter r) \<and>
   closed_careAfterPhone (filterCareAfterPhone careAfterPhone) \<and>
   (\<forall>b. filterDataEncr dataEncr allowedKeys dynamicPatterns = JObj b \<longrightarrow>
      (\<forall>k \<in> set (map fst b). keeps_key allowedKeys dynamicPatterns k)) \<and>
   (\<forall>outputData results. processData_strict inputData = Inr (outputData, results) \<longrightarrow>
      list_all closed_client outputData) \<and>
   (\<forall>outputData results. processData_salvage inputData = Inr (outputData, results) \<longrightarrow>
      list_all closed_client outputData)"
proof (intro conjI allI impI)
  fix r assume "filterClient client = Inr r"
  then show "closed_client r" by (rule filterClient_closed)
next
  fix r assume "filterPregnancy pregnancy = Inr r"
  then show "closed_pregnancy r" by (intro filtered_closed_pregnancy filterPregnancy_filtered)
next
  fix r assume "filterBirth birth = Inr r"
  then show "closed_birth r" by (intro filtered_closed_birth filterBirth_filtered)
next
  fix r assume "filterChild child = Inr r"
  then show "closed_child r" by (intro filtered_closed_child filterChild_filtered)
next
  fix r assume "filterCareAfter careAfter = Inr r"
  then show "closed_careAfter r" by (intro filtered_closed_careAfter filterCareAfter_filtered)
next
  show "closed_careAfterPhone (filterCareAfterPhone careAfterPhone)"
    by (intro filtered_closed_careAfterPhone filterCareAfterPhone_filtered)
next
  fix b assume "filterDataEncr dataEncr allowedKeys dynamicPatterns = JObj b"
  then show "\<forall>k \<in> set (map fst b). keeps_key allowedKeys dynamicPatterns k"
    by (rule filterDataEncr_keys)
next
  fix outputData results
  assume "processData_strict inputData = Inr (outputData, results)"
  then show "list_all closed_client outputData" by (rule processData_strict_closed)
next
  fix outputData results
  assume "processData_salvage inputData = Inr (outputData, results)"
  then show "list_all closed_client outputData" by (rule processData_salvage_closed)
qed

theorem whitelist_closure_witness:
  "processData_salvage (JArr [example_client]) = Inr ([example_filtered], example_results) \<and>
   processData_strict (JArr [example_client]) = Inr ([example_filtered], example_results) \<and>
   closed_client example_filtered \<and>
   \<not> closed_client example_client"
proof -
  note c = whitelist_closure[where inputData = "JArr [example_client]"]
  note c9 = c[THEN conjunct2, THEN conjunct2, THEN conjunct2, THEN conjunct2, THEN conjunct2,
      THEN conjunct2, THEN conjunct2, THEN conjunct2, rule_format, OF processData_salvage_example]
  from c9 have "list_all closed_client [example_filtered]" .
  then have 1: "closed_client example_filtered" by simp
  have 2: "\<not> closed_client example_client"
    by (simp add: closed_client_def whitelisted_def example_client_def whitelist_client_def)
  from processData_salvage_example processData_strict_example 1 2 show ?thesis by (intro conjI)
qed

section \<open>Strict validation\<close>

lemma show_nat_not_length: "show_nat i \<noteq> ''length''"
proof
  assume "show_nat i = ''length''"
  then have "CHR ''l'' \<in> set (show_nat i)" by simp
  with show_nat_digits[of i] have "is_digit (CHR ''l'')" by (rule bspec)
  then show False by (simp add: is_digit_def)
qed

lemma distinct_indices: "distinct (map show_nat [0..<n])"
  by (simp add: distinct_map inj_on_def show_nat_inj)

lemma array_index:
  assumes "i < length xs"
  shows "get_prop (JArr xs) (show_nat i) = Some (xs ! i)"
proof -
  have "map_of (zip (map show_nat [0..<length xs]) xs) (map show_nat [0..<length xs] ! i)
      = Some (xs ! i)"
    using assms by (intro map_of_zip_nth) (simp_all add: distinct_indices)
  with assms show ?thesis by (simp add: show_nat_not_length)
qed

lemma js_less_length: "js_less i (get_prop (JArr xs) ''length'') \<longleftrightarrow> i < length xs"
  by (simp add: js_less_def)

lemma pregnancies_loop_array_unfold:
  assumes "i < length xs"
  shows "pregnancies_loop (JArr xs) i =
     (case validateEntity (Some (xs ! i)) required_pregnancy_strict False of
        EntityInvalid missingField \<Rightarrow>
          (case read_prop (xs ! i) ''id'' of
             Inl e \<Rightarrow> Inl e
           | Inr pid \<Rightarrow> Inr (Invalid (MissingPregnancyFieldAt i pid missingField)))
      | EntityValid \<Rightarrow>
          (case read_prop (xs ! i) ''birth'' of
             Inl e \<Rightarrow> Inl e
           | Inr birth \<Rightarrow>
               if truthy_opt birth then
                 (case validateEntity birth required_birth True of
                    EntityInvalid missingField \<Rightarrow>
                      (case read_prop (xs ! i) ''id'' of
                         Inl e \<Rightarrow> Inl e
                       | Inr pid \<Rightarrow> Inr (Invalid (MissingBirthFieldAt i pid missingField)))
                  | EntityValid \<Rightarrow> pregnancies_loop (JArr xs) (i + 1))
               else pregnancies_loop (JArr xs) (i + 1)))"
  apply (subst pregnancies_loop.simps)
  apply (simp only: js_less_length array_index[OF assms] assms if_True Let_def read_prop_opt.simps)
  done

lemma pregnancies_loop_array_step:
  assumes "i < length xs"
  shows "pregnancies_loop (JArr xs) i =
     (if pregnancy_ok_strict (xs ! i) then pregnancies_loop (JArr xs) (i + 1)
      else if xs ! i = JNull then Inl TypeError
      else if \<not> isValidValue (opt_prop (Some (xs ! i)) ''birth'') False then
        Inr (Invalid (MissingPregnancyFieldAt i (get_prop (xs ! i) ''id'') ''birth''))
      else Inr (Invalid (MissingBirthFieldAt i (get_prop (xs ! i) ''id'') ''children'')))"
proof (cases "xs ! i = JNull")
  case True
  then show ?thesis
    unfolding pregnancies_loop_array_unfold[OF assms]
    by (simp add: required_pregnancy_strict_def pregnancy_ok_strict_def read_prop_def)
next
  case False
  have o: "opt_prop (Some (xs ! i)) k = get_prop (xs ! i) k" for k
    using False by (cases "xs ! i") simp_all
  show ?thesis
  proof (cases "get_prop (xs ! i) ''birth''")
    case None
    with False o show ?thesis
      unfolding pregnancies_loop_array_unfold[OF assms]
      by (simp add: required_pregnancy_strict_def pregnancy_ok_strict_def read_prop_def)
  next
    case (Some birth)
    show ?thesis
    proof (cases "birth = JNull")
      case True
      with Some False o show ?thesis
        unfolding pregnancies_loop_array_unfold[OF assms]
        by (simp add: required_pregnancy_strict_def pregnancy_ok_strict_def read_prop_def)
    next
      case bn: False
      then have v: "isValidValue (Some birth) False" by (cases birth) simp_all
      show ?thesis
      proof (cases "truthy birth")
        case True
        with bn Some False o v show ?thesis
          unfolding pregnancies_loop_array_unfold[OF assms]
          by (simp add: required_pregnancy_strict_def pregnancy_ok_strict_def read_prop_def
              required_birth_def)
      next
        case tf: False
        with bn Some False o v show ?thesis
          unfolding pregnancies_loop_array_unfold[OF assms]
          by (simp add: required_pregnancy_strict_def pregnancy_ok_strict_def read_prop_def)
      qed
    qed
  qed
qed

lemma pregnancies_loop_array_end:
  assumes "\<not> i < length xs"
  shows "pregnancies_loop (JArr xs) i = Inr Valid"
  apply (subst pregnancies_loop.simps)
  apply (simp only: js_less_length assms if_False)
  done

lemma from_index_split:
  fixes i n :: nat
  assumes "i < n"
  shows "(\<forall>j. i \<le> j \<and> j < n \<longrightarrow> P j) \<longleftrightarrow> P i \<and> (\<forall>j. i + 1 \<le> j \<and> j < n \<longrightarrow> P j)"
proof
  assume a: "\<forall>j. i \<le> j \<and> j < n \<longrightarrow> P j"
  then have "P i" using assms by auto
  moreover from a have "\<forall>j. i + 1 \<le> j \<and> j < n \<longrightarrow> P j" by auto
  ultimately show "P i \<and> (\<forall>j. i + 1 \<le> j \<and> j < n \<longrightarrow> P j)" by simp
next
  assume a: "P i \<and> (\<forall>j. i + 1 \<le> j \<and> j < n \<longrightarrow> P j)"
  show "\<forall>j. i \<le> j \<and> j < n \<longrightarrow> P j"
  proof (intro allI impI)
    fix j assume j: "i \<le> j \<and> j < n"
    show "P j"
    proof (cases "j = i")
      case True
      with a show ?thesis by auto
    next
      case False
      with j have "i + 1 \<le> j" by auto
      with a j show ?thesis by auto
    qed
  qed
qed

lemma pregnancies_loop_array_valid:
  "pregnancies_loop (JArr xs) i = Inr Valid \<longleftrightarrow>
     (\<forall>j. i \<le> j \<and> j < length xs \<longrightarrow> pregnancy_ok_strict (xs ! j))"
proof (induction "length xs - i" arbitrary: i)
  case 0
  then have "\<not> i < length xs" by simp
  then show ?case using pregnancies_loop_array_end[of i xs] by auto
next
  case (Suc n)
  then have lt: "i < length xs" by simp
  from Suc have IH: "pregnancies_loop (JArr xs) (i + 1) = Inr Valid \<longleftrightarrow>
     (\<forall>j. i + 1 \<le> j \<and> j < length xs \<longrightarrow> pregnancy_ok_strict (xs ! j))" by simp
  show ?case
  proof (cases "pregnancy_ok_strict (xs ! i)")
    case True
    with IH show ?thesis
      unfolding from_index_split[OF lt] pregnancies_loop_array_step[OF lt] by simp
  next
    case False
    then show ?thesis
      unfolding from_index_split[OF lt] pregnancies_loop_array_step[OF lt] by simp
  qed
qed

lemma validateClient_strict_array:
  assumes "opt_prop (Some client) ''pregnancies'' = Some (JArr ps)"
  shows "validateClient_strict client = Inr Valid \<longleftrightarrow>
           ps \<noteq> [] \<and> (\<forall>p \<in> set ps. pregnancy_ok_strict p)"
proof (cases "ps = []")
  case True
  with assms show ?thesis
    by (simp add: validateClient_strict_def required_client_def)
next
  case False
  with assms have "validateClient_strict client = pregnancies_loop (JArr ps) 0"
    by (intro validateClient_strict_passed) simp_all
  with False show ?thesis
    by (simp add: pregnancies_loop_array_valid all_set_conv_all_nth)
qed

lemma validateClient_strict_missing:
  assumes "opt_prop (Some client) ''pregnancies'' = None \<or>
           opt_prop (Some client) ''pregnancies'' = Some JNull \<or>
           opt_prop (Some client) ''pregnancies'' = Some (JArr [])"
  shows "validateClient_strict client = Inr (Invalid (MissingClientField ''pregnancies''))"
  using assms by (auto simp: validateClient_strict_def required_client_def)

lemma process_client_strict_invalid:
  assumes "validateClient_strict client = Inr (Invalid reason)" and "client \<noteq> JNull"
  shows "process_client_strict client (outputData, results) =
     Inr (outputData,
          results\<lparr>skippedClientsCount := skippedClientsCount results + 1,
                  skippedClients :=
                    skippedClients results @ [SkippedClient (get_prop client ''id'') reason]\<rparr>)"
  using assms by (simp add: process_client_strict_def read_prop_def)

lemma process_client_strict_valid:
  assumes "validateClient_strict client = Inr Valid" and "filterClient client = Inr filteredClient"
  shows "process_client_strict client (outputData, results) =
     Inr (outputData @ [filteredClient], results\<lparr>successCount := successCount results + 1\<rparr>)"
  using assms by (simp add: process_client_strict_def)

text \<open>
  Strict validation where \<^verbatim>\<open>pregnancies\<close> is an array. A client whose \<^verbatim>\<open>pregnancies\<close> field is
  absent, \<^verbatim>\<open>null\<close> or an empty array is invalid. A client whose \<^verbatim>\<open>pregnancies\<close> field is an
  array is valid if and only if the array is non-empty and every pregnancy in it has a
  \<^verbatim>\<open>birth\<close> that is not \<^verbatim>\<open>null\<close> (no array-emptiness check on \<^verbatim>\<open>birth\<close>) and, whenever that
  \<^verbatim>\<open>birth\<close> is truthy, a \<^verbatim>\<open>birth.children\<close> that is neither \<^verbatim>\<open>null\<close> nor an empty array. A
  client found invalid is skipped whole: the run records one skipped-client entry with
  the reason and adds nothing to the output; a client found valid is filtered and added.
\<close>

lemma strict_client_arrays:
  "(opt_prop (Some client) ''pregnancies'' = None \<or>
    opt_prop (Some client) ''pregnancies'' = Some JNull \<or>
    opt_prop (Some client) ''pregnancies'' = Some (JArr []) \<longrightarrow>
      validateClient_strict client = Inr (Invalid (MissingClientField ''pregnancies''))) \<and>
   (\<forall>ps. opt_prop (Some client) ''pregnancies'' = Some (JArr ps) \<longrightarrow>
      (validateClient_strict client = Inr Valid \<longleftrightarrow>
         ps \<noteq> [] \<and> (\<forall>p \<in> set ps. pregnancy_ok_strict p))) \<and>
   (\<forall>reason. validateClient_strict client = Inr (Invalid reason) \<and> client \<noteq> JNull \<longrightarrow>
      process_client_strict client (outputData, results) =
        Inr (outputData,
             results\<lparr>skippedClientsCount := skippedClientsCount results + 1,
                     skippedClients :=
                       skippedClients results @ [SkippedClient (get_prop client ''id'') reason]\<rparr>)) \<and>
   (\<forall>filteredClient.
      validateClient_strict client = Inr Valid \<and> filterClient client = Inr filteredClient \<longrightarrow>
      process_client_strict client (outputData, results) =
        Inr (outputData @ [filteredClient],
             results\<lparr>successCount := successCount results + 1\<rparr>))"
proof (intro conjI allI impI)
  assume "opt_prop (Some client) ''pregnancies'' = None \<or>
    opt_prop (Some client) ''pregnancies'' = Some JNull \<or>
    opt_prop (Some client) ''pregnancies'' = Some (JArr [])"
  then show "validateClient_strict client = Inr (Invalid (MissingClientField ''pregnancies''))"
    by (rule validateClient_strict_missing)
next
  fix ps assume "opt_prop (Some client) ''pregnancies'' = Some (JArr ps)"
  then show "validateClient_strict client = Inr Valid \<longleftrightarrow>
         ps \<noteq> [] \<and> (\<forall>p \<in> set ps. pregnancy_ok_strict p)"
    by (rule validateClient_strict_array)
next
  fix reason assume "validateClient_strict client = Inr (Invalid reason) \<and> client \<noteq> JNull"
  then show "process_client_strict client (outputData, results) =
        Inr (outputData,
             results\<lparr>skippedClientsCount := skippedClientsCount results + 1,
                     skippedClients :=
                       skippedClients results @ [SkippedClient (get_prop client ''id'') reason]\<rparr>)"
    by (intro process_client_strict_invalid) simp_all
next
  fix filteredClient
  assume "validateClient_strict client = Inr Valid \<and> filterClient client = Inr filteredClient"
  then show "process_client_strict client (outputData, results) =
        Inr (outputData @ [filteredClient],
             results\<lparr>successCount := successCount results + 1\<rparr>)"
    by (intro process_client_strict_valid) simp_all
qed

lemma strict_client_arrays_example:
  "validateClient_strict example_client = Inr Valid \<and>
   process_client_strict example_client ([], initial_results) =
     Inr ([example_filtered], initial_results\<lparr>successCount := successCount initial_results + 1\<rparr>) \<and>
   validateClient_strict example_no_birth
     = Inr (Invalid (MissingPregnancyFieldAt 0 (Some (JNum 20)) ''birth'')) \<and>
   process_client_strict example_no_birth ([], initial_results) =
     Inr ([], initial_results\<lparr>skippedClientsCount := skippedClientsCount initial_results + 1,
        skippedClients := skippedClients initial_results @
          [SkippedClient (get_prop example_no_birth ''id'')
             (MissingPregnancyFieldAt 0 (Some (JNum 20)) ''birth'')]\<rparr>)"
proof -
  note a = strict_client_arrays[of example_client "[]" initial_results]
  note b = strict_client_arrays[of example_no_birth "[]" initial_results]
  have p: "opt_prop (Some example_client) ''pregnancies'' = Some (JArr [JObj
         [(''id'', JNum 10), (''note'', JStr ''x''),
          (''data_encr'', JObj [(''egt'', JNum 1), (''secret'', JNum 2)]),
          (''birth'', JObj [(''id'', JNum 100), (''weight'', JNum 3),
             (''children'', JArr [JObj [(''id'', JNum 1000), (''name'', JStr ''c'')]])]),
          (''cares_after'', JArr [JObj [(''id'', JNum 5),
             (''data_encr'', JObj [(''kind-5-nahrung'', JStr ''m''), (''kind-5-x'', JNum 0)])]]),
          (''cares_after_phone'', JArr [JObj [(''id'', JNum 6), (''who'', JStr ''w'')]])]])"
    by (simp add: example_client_def)
  from a[THEN conjunct2, THEN conjunct1, rule_format, OF p]
  have 1: "validateClient_strict example_client = Inr Valid"
    by (simp add: pregnancy_ok_strict_def)
  from a[THEN conjunct2, THEN conjunct2, THEN conjunct2, rule_format, of example_filtered]
    1 filterClient_example
  have 2: "process_client_strict example_client ([], initial_results) =
     Inr ([example_filtered], initial_results\<lparr>successCount := successCount initial_results + 1\<rparr>)"
    by simp
  have 3: "validateClient_strict example_no_birth
     = Inr (Invalid (MissingPregnancyFieldAt 0 (Some (JNum 20)) ''birth''))"
    unfolding example_no_birth_def by code_simp
  have n: "example_no_birth \<noteq> JNull" by (simp add: example_no_birth_def)
  from b[THEN conjunct2, THEN conjunct2, THEN conjunct1, rule_format,
      of "MissingPregnancyFieldAt 0 (Some (JNum 20)) ''birth''"] 3 n
  have 4: "process_client_strict example_no_birth ([], initial_results) =
     Inr ([], initial_results\<lparr>skippedClientsCount := skippedClientsCount initial_results + 1,
        skippedClients := skippedClients initial_results @
          [SkippedClient (get_prop example_no_birth ''id'')
             (MissingPregnancyFieldAt 0 (Some (JNum 20)) ''birth'')]\<rparr>)"
    by simp
  from 1 2 3 4 show ?thesis by (intro conjI)
qed

text \<open>
  Claim C2. In strict mode a client is to be valid if and only if its \<^verbatim>\<open>pregnancies\<close> is a
  non-empty array and every pregnancy has a \<^verbatim>\<open>birth\<close> with non-empty \<^verbatim>\<open>children\<close>, and a client
  with any failure is to be skipped. The code does not do this where \<^verbatim>\<open>pregnancies\<close> is not
  an array: the check meant to require a non-empty array rejects only \<^verbatim>\<open>null\<close>,
  \<^verbatim>\<open>undefined\<close> and the empty array, so the client \<^verbatim>\<open>{ id: 1, pregnancies: { note: 'x' } }\<close>
  passes it, the loop over \<^verbatim>\<open>client.pregnancies.length\<close> (\<^verbatim>\<open>undefined\<close>) runs no iteration, the
  client is valid, and the run emits it with \<^verbatim>\<open>pregnancies\<close> as it came. Nor is a client
  whose only pregnancy is \<^verbatim>\<open>null\<close> skipped: the pregnancy is found without \<^verbatim>\<open>birth\<close>, and
  building the reason reads \<^verbatim>\<open>pregnancy.id\<close>, which throws.
\<close>

theorem strict_non_array_pregnancies:
  "get_prop example_object_pregnancies ''pregnancies'' = Some (JObj [(''note'', JStr ''x'')]) \<and>
   \<not> isArray (JObj [(''note'', JStr ''x'')]) \<and>
   validateEntity (Some example_object_pregnancies) required_client True = EntityValid \<and>
   validateClient_strict example_object_pregnancies = Inr Valid \<and>
   processData_strict (JArr [example_object_pregnancies]) =
     Inr ([example_object_pregnancies], example_results) \<and>
   validateClient_strict example_null_pregnancy = Inl TypeError \<and>
   processData_strict (JArr [example_null_pregnancy]) = Inl TypeError"
proof -
  have 0: "validateEntity (Some example_object_pregnancies) required_client True = EntityValid"
    unfolding example_object_pregnancies_def by code_simp
  have 1: "validateClient_strict example_object_pregnancies = Inr Valid"
    unfolding example_object_pregnancies_def by code_simp
  have 2: "processData_strict (JArr [example_object_pregnancies]) =
     Inr ([example_object_pregnancies], example_results)"
    unfolding example_object_pregnancies_def example_results_def by code_simp
  have 3: "validateClient_strict example_null_pregnancy = Inl TypeError"
    unfolding example_null_pregnancy_def by code_simp
  have 4: "processData_strict (JArr [example_null_pregnancy]) = Inl TypeError"
    unfolding example_null_pregnancy_def by code_simp
  from 0 1 2 3 4 show ?thesis by (simp add: example_object_pregnancies_def)
qed

section \<open>Salvage validation\<close>

lemma validatePregnancy_returns: "validatePregnancy p \<noteq> Inl e"
proof (cases "p = JNull")
  case True
  then show ?thesis by (simp add: validatePregnancy_def required_pregnancy_salvage_def)
next
  case False
  then show ?thesis
    by (auto simp: validatePregnancy_def read_prop_def
        split: entity_validation.splits if_splits)
qed

lemma validatePregnancy_null: "validatePregnancy JNull = Inr (Invalid (MissingPregnancyField ''birth''))"
  by (simp add: validatePregnancy_def required_pregnancy_salvage_def)

lemma validatePregnancy_cases:
  obtains "validatePregnancy p = Inr Valid"
  | reason where "validatePregnancy p = Inr (Invalid reason)"
proof (cases "validatePregnancy p")
  case (Inl e)
  then show ?thesis using validatePregnancy_returns by blast
next
  case (Inr v)
  then show ?thesis using that by (cases v) auto
qed

lemma validatePregnancy_valid_iff:
  "validatePregnancy p = Inr Valid \<longleftrightarrow>
     isValidValue (opt_prop (Some p) ''birth'') True \<and>
     isValidValue (opt_prop (Some p) ''cares_after'') True \<and>
     isValidValue (opt_prop (Some p) ''cares_after_phone'') True \<and>
     (\<forall>birth. opt_prop (Some p) ''birth'' = Some birth \<and> truthy birth \<longrightarrow>
        isValidValue (opt_prop (Some birth) ''children'') True)"
proof (cases "p = JNull")
  case True
  then show ?thesis by (simp add: validatePregnancy_null)
next
  case False
  then have o: "opt_prop (Some p) k = get_prop p k" for k by (cases p) simp_all
  have t: "truthy_opt b \<longleftrightarrow> (\<exists>v. b = Some v \<and> truthy v)" for b by (cases b) simp_all
  show ?thesis
    using False
    by (auto simp: validatePregnancy_def required_pregnancy_salvage_def required_birth_def
        read_prop_def o t split: entity_validation.splits if_splits)
qed

lemma validatePregnancy_reason:
  "validatePregnancy p = Inr (Invalid reason) \<Longrightarrow>
     reason = MissingPregnancyField ''birth'' \<and> \<not> isValidValue (opt_prop (Some p) ''birth'') True \<or>
     reason = MissingPregnancyField ''cares_after'' \<and>
       \<not> isValidValue (opt_prop (Some p) ''cares_after'') True \<or>
     reason = MissingPregnancyField ''cares_after_phone'' \<and>
       \<not> isValidValue (opt_prop (Some p) ''cares_after_phone'') True \<or>
     reason = MissingBirthField ''children''"
  by (auto simp: validatePregnancy_def required_pregnancy_salvage_def required_birth_def
      split: entity_validation.splits if_splits sum.splits)

subsection \<open>The loop over the pregnancies of one client\<close>

lemma check_pregnancy_valid:
  "pregnancy_valid p \<Longrightarrow> check_pregnancy client p (vp, res) = Inr (vp @ [p], res)"
  by (simp add: check_pregnancy_def pregnancy_valid_def)

lemma check_pregnancy_invalid:
  assumes "\<not> pregnancy_valid p" and "client \<noteq> JNull"
  shows "check_pregnancy client p (vp, res) =
     (if p = JNull then Inl TypeError
      else Inr (vp, res\<lparr>skippedPregnanciesCount := skippedPregnanciesCount res + 1,
                        skippedPregnancies := skippedPregnancies res @ [skip_entry client p]\<rparr>))"
proof -
  from assms(1) have "validatePregnancy p \<noteq> Inr Valid" by (simp add: pregnancy_valid_def)
  then obtain reason where r: "validatePregnancy p = Inr (Invalid reason)"
    by (cases p rule: validatePregnancy_cases) simp_all
  with assms(2) show ?thesis
    by (simp add: check_pregnancy_def read_prop_def skip_entry_def)
qed

lemma pregnancy_valid_not_null: "pregnancy_valid p \<Longrightarrow> p \<noteq> JNull"
  by (auto simp: pregnancy_valid_def validatePregnancy_null)

lemma pregnancy_loop:
  assumes "client \<noteq> JNull"
  shows "for_each (check_pregnancy client) ps (vp, res) =
     (if JNull \<in> set ps then Inl TypeError
      else Inr (vp @ filter pregnancy_valid ps,
                res\<lparr>skippedPregnanciesCount :=
                       skippedPregnanciesCount res + length (filter (\<lambda>p. \<not> pregnancy_valid p) ps),
                     skippedPregnancies :=
                       skippedPregnancies res @
                         map (skip_entry client) (filter (\<lambda>p. \<not> pregnancy_valid p) ps)\<rparr>))"
proof (induction ps arbitrary: vp res)
  case Nil
  show ?case by simp
next
  case (Cons p ps)
  show ?case
  proof (cases "pregnancy_valid p")
    case True
    with Cons[of "vp @ [p]" res] pregnancy_valid_not_null[OF True] show ?thesis
      by (simp add: check_pregnancy_valid)
  next
    case False
    show ?thesis
    proof (cases "p = JNull")
      case True
      with False assms show ?thesis by (simp add: check_pregnancy_invalid)
    next
      case pn: False
      let ?res = "res\<lparr>skippedPregnanciesCount := skippedPregnanciesCount res + 1,
                        skippedPregnancies := skippedPregnancies res @ [skip_entry client p]\<rparr>"
      from Cons[of vp ?res] False pn assms show ?thesis
        by (simp add: check_pregnancy_invalid)
    qed
  qed
qed

section \<open>When the filters return\<close>

lemma map_of_picked: "map_of (picked obj ks) k = (if k \<in> set ks then get_prop obj k else None)"
  by (induction ks) (auto simp: picked_Nil picked_Cons split: option.splits)

lemma get_prop_pickProperties:
  assumes "distinct wl" and "named_key k"
  shows "get_prop (pickProperties v wl) k = (if k \<in> set wl then get_prop v k else None)"
proof (cases "truthy v \<and> typeof_object v")
  case True
  with assms(1) have "pickProperties v wl = JObj (picked v wl)"
    by (simp add: pickProperties_object)
  then show ?thesis by (simp add: map_of_picked)
next
  case False
  then have p: "pickProperties v wl = v" by (simp add: pickProperties_other)
  from False have "\<not> typeof_object v \<or> v = JNull" by (cases v) auto
  with assms(2) have "get_prop v k = None" by (rule get_prop_named_None)
  with p show ?thesis by simp
qed

lemma elements_okD:
  "elements_ok key P v \<Longrightarrow> get_prop v key = Some (JArr xs) \<Longrightarrow> list_all P xs"
  by (simp add: elements_ok_def)

lemma enc_step_total:
  "f \<noteq> JNull \<Longrightarrow> \<exists>r. filter_data_encr_field f al ps = Inr r"
  by (simp add: filter_data_encr_field_def read_prop_def split: option.splits)

lemma map_field_total:
  assumes "f \<noteq> JNull"
    and "\<And>xs. get_prop f key = Some (JArr xs) \<Longrightarrow> list_all (\<lambda>x. \<exists>y. G x = Inr y) xs"
  shows "\<exists>r. map_field key G f = Inr r"
proof (cases "\<exists>xs. get_prop f key = Some (JArr xs)")
  case False
  with assms(1) show ?thesis
    by (auto simp: map_field_def read_prop_def split: option.splits json.splits)
next
  case True
  then obtain xs where xs: "get_prop f key = Some (JArr xs)" by auto
  from map_err_total[OF assms(2)[OF xs]] obtain ys where "map_err G xs = Inr ys" by auto
  with xs assms(1) show ?thesis by (simp add: map_field_def read_prop_def)
qed

lemma filterChild_total: "child \<noteq> JNull \<Longrightarrow> \<exists>r. filterChild child = Inr r"
  by (simp add: filterChild_def enc_step_total pickProperties_null)

lemma filterCareAfter_total: "careAfter \<noteq> JNull \<Longrightarrow> \<exists>r. filterCareAfter careAfter = Inr r"
  by (simp add: filterCareAfter_def enc_step_total pickProperties_null)

lemma filterBirth_total:
  assumes "no_null_elements ''children'' birth"
  shows "\<exists>r. filterBirth birth = Inr r"
proof (cases "truthy birth")
  case False
  then show ?thesis by (simp add: filterBirth_steps)
next
  case True
  let ?f0 = "pickProperties birth whitelist_birth"
  from True have n0: "?f0 \<noteq> JNull" by (auto simp: pickProperties_null)
  then obtain f1 where e: "filter_data_encr_field ?f0 dataEncr_birth None = Inr f1"
    using enc_step_total by blast
  have p0: "projected whitelist_birth ?f0"
    by (simp add: projected_pickProperties distinct_whitelists)
  note s1 = enc_step_result[OF p0 e]
  have c: "get_prop f1 ''children'' = get_prop birth ''children''"
    using s1(5)[of "''children''"]
    by (simp add: get_prop_pickProperties distinct_whitelists named_keys whitelist_birth_def)
  have "\<exists>r. map_field ''children'' filterChild f1 = Inr r"
  proof (rule map_field_total[OF s1(1)])
    fix xs assume "get_prop f1 ''children'' = Some (JArr xs)"
    with c have "get_prop birth ''children'' = Some (JArr xs)" by simp
    with assms have "list_all (\<lambda>x. x \<noteq> JNull) xs"
      unfolding no_null_elements_def by (rule elements_okD)
    then show "list_all (\<lambda>x. \<exists>y. filterChild x = Inr y) xs"
      by (simp add: list_all_iff filterChild_total)
  qed
  with True e show ?thesis by (simp add: filterBirth_steps)
qed

lemma birth_field_total:
  assumes "f \<noteq> JNull"
    and "\<And>birth. get_prop f ''birth'' = Some birth \<Longrightarrow> no_null_elements ''children'' birth"
  shows "\<exists>r. birth_field f = Inr r"
proof (cases "get_prop f ''birth''")
  case None
  with assms(1) show ?thesis by (simp add: birth_field_def read_prop_def)
next
  case (Some birth)
  from filterBirth_total[OF assms(2)[OF Some]] obtain b where "filterBirth birth = Inr b" by auto
  with Some assms(1) show ?thesis by (simp add: birth_field_def read_prop_def)
qed

lemma filterPregnancy_total:
  assumes "entities_present pregnancy"
  shows "\<exists>r. filterPregnancy pregnancy = Inr r"
proof -
  let ?f0 = "pickProperties pregnancy whitelist_pregnancy"
  from assms have n: "pregnancy \<noteq> JNull" by (simp add: entities_present_def)
  then have n0: "?f0 \<noteq> JNull" by (simp add: pickProperties_null)
  have p0: "projected whitelist_pregnancy ?f0"
    by (simp add: projected_pickProperties distinct_whitelists)
  have g0: "get_prop ?f0 ''birth'' = get_prop pregnancy ''birth''"
    "get_prop ?f0 ''cares_after'' = get_prop pregnancy ''cares_after''"
    by (simp_all add: get_prop_pickProperties distinct_whitelists named_keys whitelist_pregnancy_def)
  from n0 obtain f1 where e: "filter_data_encr_field ?f0 dataEncr_pregnancy None = Inr f1"
    using enc_step_total by blast
  note s1 = enc_step_result[OF p0 e]
  have "\<exists>r. birth_field f1 = Inr r"
  proof (rule birth_field_total[OF s1(1)])
    fix birth assume "get_prop f1 ''birth'' = Some birth"
    with s1(5)[of "''birth''"] g0 have "get_prop pregnancy ''birth'' = Some birth" by simp
    with assms show "no_null_elements ''children'' birth" by (simp add: entities_present_def)
  qed
  then obtain f2 where b: "birth_field f1 = Inr f2" by auto
  note s2 = birth_field_result[OF s1(2) s1(1) b]
  have "\<exists>r. map_field ''cares_after'' filterCareAfter f2 = Inr r"
  proof (rule map_field_total[OF s2(1)])
    fix xs assume "get_prop f2 ''cares_after'' = Some (JArr xs)"
    with s2(4)[of "''cares_after''"] s1(5)[of "''cares_after''"] g0
    have "get_prop pregnancy ''cares_after'' = Some (JArr xs)" by simp
    moreover from assms have "elements_ok ''cares_after'' (\<lambda>x. x \<noteq> JNull) pregnancy"
      by (simp add: entities_present_def no_null_elements_def)
    ultimately have "list_all (\<lambda>x. x \<noteq> JNull) xs" by (rule elements_okD[rotated])
    then show "list_all (\<lambda>x. \<exists>y. filterCareAfter x = Inr y) xs"
      by (simp add: list_all_iff filterCareAfter_total)
  qed
  then obtain f3 where m: "map_field ''cares_after'' filterCareAfter f2 = Inr f3" by auto
  note s3 = map_field_result[OF s2(2) s2(1) named_keys(4) m filterCareAfter_filtered]
  have "\<exists>r. map_field ''cares_after_phone'' (\<lambda>x. Inr (filterCareAfterPhone x)) f3 = Inr r"
    by (rule map_field_total[OF s3(1)]) (auto simp: list_all_iff)
  with e b m show ?thesis by (simp add: filterPregnancy_steps)
qed

section \<open>Salvage processing of one client\<close>

lemma salvage_valid_iff:
  "validateClient_salvage client = Valid \<longleftrightarrow>
     (\<exists>v. get_prop client ''pregnancies'' = Some v \<and> v \<noteq> JNull \<and> v \<noteq> JArr [])"
proof -
  have "validateClient_salvage client = Valid \<longleftrightarrow>
      validateEntity (Some client) required_client True = EntityValid"
    by (simp add: validateClient_salvage_def split: entity_validation.splits)
  moreover have "opt_prop (Some client) ''pregnancies'' = get_prop client ''pregnancies''"
    by (cases client) simp_all
  ultimately show ?thesis by (simp add: client_check_iff)
qed

lemma salvage_valid_object:
  assumes "validateClient_salvage client = Valid"
  obtains kvs where "client = JObj kvs"
proof -
  from assms obtain v where "get_prop client ''pregnancies'' = Some v"
    by (auto simp: salvage_valid_iff)
  with named_keys(6) show ?thesis using that by (auto elim: get_prop_named)
qed


lemma process_client_salvage_valid:
  assumes "validateClient_salvage client = Valid"
  shows "process_client_salvage client (outputData, results) =
     (case iterate (get_prop client ''pregnancies'') of
        Inl e \<Rightarrow> Inl e
      | Inr ps \<Rightarrow>
          if JNull \<in> set ps then Inl TypeError
          else if filter pregnancy_valid ps = [] then
            Inr (outputData,
                 (record_skipped client ps results)
                   \<lparr>skippedClientsCount := skippedClientsCount results + 1,
                    skippedClients :=
                      skippedClients results @
                        [SkippedClient (get_prop client ''id'') NoValidPregnancies]\<rparr>)
          else
            (case filterClient (with_pregnancies client (filter pregnancy_valid ps)) of
               Inl e \<Rightarrow> Inl e
             | Inr filteredClient \<Rightarrow>
                 Inr (outputData @ [filteredClient],
                      (record_skipped client ps results)
                        \<lparr>successCount := successCount results + 1\<rparr>)))"
proof -
  from assms obtain kvs where c: "client = JObj kvs" by (rule salvage_valid_object)
  then have n: "client \<noteq> JNull" by simp
  show ?thesis
    using assms n
    by (simp add: process_client_salvage_def read_prop_def pregnancy_loop[OF n]
        record_skipped_def split: sum.splits)
qed

lemma get_prop_with_pregnancies:
  "get_prop (with_pregnancies (JObj kvs) vp) k =
     (if k = ''pregnancies'' then Some (JArr vp) else map_of kvs k)"
  by (simp add: with_pregnancies_def map_of_obj_set)

lemma filterClient_with_pregnancies:
  "filterClient (with_pregnancies (JObj kvs) vp) =
     (case map_err filterPregnancy vp of
        Inl e \<Rightarrow> Inl e
      | Inr fps \<Rightarrow>
          Inr (set_prop (pickProperties (with_pregnancies (JObj kvs) vp) whitelist_client)
                 ''pregnancies'' (JArr fps)))"
proof -
  let ?f0 = "pickProperties (with_pregnancies (JObj kvs) vp) whitelist_client"
  have g: "get_prop ?f0 ''pregnancies'' = Some (JArr vp)"
    by (simp add: get_prop_pickProperties distinct_whitelists named_keys
        get_prop_with_pregnancies whitelist_client_def)
  have n: "?f0 \<noteq> JNull" by (simp add: pickProperties_null with_pregnancies_def)
  from g n show ?thesis by (simp add: filterClient_steps map_field_def read_prop_def)
qed

lemma named_key_id: "named_key ''id''"
  by (simp add: named_key_def is_digit_def)

lemma filterClient_with_pregnancies_props:
  assumes "filterClient (with_pregnancies (JObj kvs) vp) = Inr fc"
  shows "\<exists>fps. map_err filterPregnancy vp = Inr fps \<and>
           get_prop fc ''pregnancies'' = Some (JArr fps) \<and>
           get_prop fc ''id'' = map_of kvs ''id''"
proof -
  let ?f0 = "pickProperties (with_pregnancies (JObj kvs) vp) whitelist_client"
  from assms obtain fps where m: "map_err filterPregnancy vp = Inr fps"
    and fc: "fc = set_prop ?f0 ''pregnancies'' (JArr fps)"
    by (auto simp: filterClient_with_pregnancies split: sum.splits)
  have g: "get_prop ?f0 ''pregnancies'' \<noteq> None"
    by (simp add: get_prop_pickProperties distinct_whitelists named_keys
        get_prop_with_pregnancies whitelist_client_def)
  have i: "get_prop ?f0 ''id'' = map_of kvs ''id''"
    by (simp add: get_prop_pickProperties distinct_whitelists named_key_id
        get_prop_with_pregnancies whitelist_client_def)
  from m fc i show ?thesis
    by (simp add: get_prop_set_prop[OF named_keys(6) g])
qed

lemma salvage_client_step:
  assumes v: "validateClient_salvage client = Valid"
    and ps: "get_prop client ''pregnancies'' = Some (JArr ps)"
    and nn: "\<forall>p \<in> set ps. p \<noteq> JNull"
    and ep: "\<forall>p \<in> set ps. pregnancy_valid p \<longrightarrow> entities_present p"
  shows "\<exists>out' res'.
      process_client_salvage client (outputData, results) = Inr (out', res') \<and>
      skippedPregnancies res' =
        skippedPregnancies results @
          map (skip_entry client) (filter (\<lambda>p. \<not> pregnancy_valid p) ps) \<and>
      skippedPregnanciesCount res' =
        skippedPregnanciesCount results + length (filter (\<lambda>p. \<not> pregnancy_valid p) ps) \<and>
      (filter pregnancy_valid ps = [] \<longrightarrow>
         out' = outputData \<and>
         skippedClients res' =
           skippedClients results @ [SkippedClient (get_prop client ''id'') NoValidPregnancies] \<and>
         skippedClientsCount res' = skippedClientsCount results + 1 \<and>
         successCount res' = successCount results) \<and>
      (filter pregnancy_valid ps \<noteq> [] \<longrightarrow>
         (\<exists>filteredClient fps.
            out' = outputData @ [filteredClient] \<and>
            map_err filterPregnancy (filter pregnancy_valid ps) = Inr fps \<and>
            get_prop filteredClient ''pregnancies'' = Some (JArr fps) \<and>
            get_prop filteredClient ''id'' = get_prop client ''id'' \<and>
            successCount res' = successCount results + 1 \<and>
            skippedClients res' = skippedClients results \<and>
            skippedClientsCount res' = skippedClientsCount results))"
proof -
  from v obtain kvs where c: "client = JObj kvs" by (rule salvage_valid_object)
  from nn have nn': "JNull \<notin> set ps" by auto
  note step = process_client_salvage_valid[OF v, of outputData results]
  show ?thesis
  proof (cases "filter pregnancy_valid ps = []")
    case True
    with step ps nn' show ?thesis by (simp add: record_skipped_def)
  next
    case False
    have "list_all (\<lambda>x. \<exists>y. filterPregnancy x = Inr y) (filter pregnancy_valid ps)"
      using ep by (auto simp: list_all_iff intro: filterPregnancy_total)
    then obtain fps where m: "map_err filterPregnancy (filter pregnancy_valid ps) = Inr fps"
      using map_err_total by blast
    then obtain fc where fc: "filterClient (with_pregnancies client (filter pregnancy_valid ps)) = Inr fc"
      unfolding c by (simp add: filterClient_with_pregnancies)
    from filterClient_with_pregnancies_props[OF fc[unfolded c]] m
    have g: "get_prop fc ''pregnancies'' = Some (JArr fps)" "get_prop fc ''id'' = get_prop client ''id''"
      by (simp_all add: c)
    from step ps nn' False fc m g show ?thesis by (simp add: record_skipped_def)
  qed
qed

lemma pregnancies_of_iterate:
  "iterate (get_prop client ''pregnancies'') = Inr ps \<Longrightarrow> pregnancies_of client = ps"
  by (simp add: pregnancies_of_def)

lemma salvage_client_returned:
  assumes v: "validateClient_salvage client = Valid"
    and r: "process_client_salvage client (outputData, results) = Inr (out', res')"
  shows "JNull \<notin> set (pregnancies_of client) \<and>
      skippedPregnancies res' =
        skippedPregnancies results @
          map (skip_entry client) (filter (\<lambda>p. \<not> pregnancy_valid p) (pregnancies_of client)) \<and>
      skippedPregnanciesCount res' =
        skippedPregnanciesCount results +
          length (filter (\<lambda>p. \<not> pregnancy_valid p) (pregnancies_of client)) \<and>
      (filter pregnancy_valid (pregnancies_of client) = [] \<longrightarrow>
         out' = outputData \<and>
         skippedClients res' =
           skippedClients results @ [SkippedClient (get_prop client ''id'') NoValidPregnancies] \<and>
         skippedClientsCount res' = skippedClientsCount results + 1 \<and>
         successCount res' = successCount results) \<and>
      (filter pregnancy_valid (pregnancies_of client) \<noteq> [] \<longrightarrow>
         (\<exists>filteredClient fps.
            out' = outputData @ [filteredClient] \<and>
            map_err filterPregnancy (filter pregnancy_valid (pregnancies_of client)) = Inr fps \<and>
            get_prop filteredClient ''pregnancies'' = Some (JArr fps) \<and>
            get_prop filteredClient ''id'' = get_prop client ''id'' \<and>
            successCount res' = successCount results + 1 \<and>
            skippedClients res' = skippedClients results \<and>
            skippedClientsCount res' = skippedClientsCount results))"
proof -
  from v obtain kvs where c: "client = JObj kvs" by (rule salvage_valid_object)
  note step = process_client_salvage_valid[OF v, of outputData results]
  from r step obtain ps where it: "iterate (get_prop client ''pregnancies'') = Inr ps"
    by (cases "iterate (get_prop client ''pregnancies'')") simp_all
  then have po: "pregnancies_of client = ps" by (rule pregnancies_of_iterate)
  from r step it have nn: "JNull \<notin> set ps" by (auto split: if_splits)
  show ?thesis
  proof (cases "filter pregnancy_valid ps = []")
    case True
    with r step it nn po show ?thesis by (auto simp: record_skipped_def)
  next
    case False
    with r step it nn obtain fc where
      fc: "filterClient (with_pregnancies client (filter pregnancy_valid ps)) = Inr fc"
      by (auto split: sum.splits)
    from filterClient_with_pregnancies_props[OF fc[unfolded c]] obtain fps where
      m: "map_err filterPregnancy (filter pregnancy_valid ps) = Inr fps"
      and g: "get_prop fc ''pregnancies'' = Some (JArr fps)" "get_prop fc ''id'' = get_prop client ''id''"
      by (auto simp: c)
    from r step it nn False fc m g po show ?thesis by (auto simp: record_skipped_def)
  qed
qed

lemma salvage_client_returns:
  assumes "validateClient_salvage client = Valid"
    and "get_prop client ''pregnancies'' = Some (JArr ps)"
    and "\<forall>p \<in> set ps. p \<noteq> JNull"
    and "\<forall>p \<in> set ps. pregnancy_valid p \<longrightarrow> entities_present p"
  shows "\<exists>out' res'. process_client_salvage client (outputData, results) = Inr (out', res')"
  using salvage_client_step[OF assms, of outputData results] by blast

text \<open>
  Salvage processing of a client whose pregnancies are records. Each pregnancy of a client
  that passes the client-level check is validated on its own: it is valid exactly when \<^verbatim>\<open>birth\<close>, \<^verbatim>\<open>cares_after\<close> and
  \<^verbatim>\<open>cares_after_phone\<close> pass the non-empty-array check and, when \<^verbatim>\<open>birth\<close> is present
  (truthy), \<^verbatim>\<open>birth.children\<close> passes it too. When the processing of the client returns, it
  has recorded one skipped-pregnancy entry, with the client id, the pregnancy id and the
  reason, for each invalid pregnancy, in order; if no pregnancy is valid, the client is
  left out of the output and recorded as a skipped client with the reason
  \<open>NoValidPregnancies\<close>; otherwise the client is added to the output with its id and
  exactly its valid pregnancies, each filtered, and is not recorded as skipped. The
  processing does return when \<^verbatim>\<open>pregnancies\<close> is an array of pregnancy records: none of them
  \<^verbatim>\<open>null\<close>, and no \<^verbatim>\<open>null\<close> among the care-after records and children of the valid ones.
\<close>

lemma salvage_client_records:
  "(\<forall>p. pregnancy_valid p \<longleftrightarrow>
      isValidValue (opt_prop (Some p) ''birth'') True \<and>
      isValidValue (opt_prop (Some p) ''cares_after'') True \<and>
      isValidValue (opt_prop (Some p) ''cares_after_phone'') True \<and>
      (\<forall>birth. opt_prop (Some p) ''birth'' = Some birth \<and> truthy birth \<longrightarrow>
         isValidValue (opt_prop (Some birth) ''children'') True)) \<and>
   (\<forall>p. \<not> pregnancy_valid p \<longrightarrow>
      (\<exists>reason. validatePregnancy p = Inr (Invalid reason) \<and>
         skip_entry client p =
           SkippedPregnancy (get_prop client ''id'') (get_prop p ''id'') reason)) \<and>
   (\<forall>out' res'.
      validateClient_salvage client = Valid \<and>
      process_client_salvage client (outputData, results) = Inr (out', res') \<longrightarrow>
        skippedPregnancies res' =
          skippedPregnancies results @
            map (skip_entry client)
              (filter (\<lambda>p. \<not> pregnancy_valid p) (pregnancies_of client)) \<and>
        skippedPregnanciesCount res' =
          skippedPregnanciesCount results +
            length (filter (\<lambda>p. \<not> pregnancy_valid p) (pregnancies_of client)) \<and>
        (filter pregnancy_valid (pregnancies_of client) = [] \<longrightarrow>
           out' = outputData \<and>
           skippedClients res' =
             skippedClients results @
               [SkippedClient (get_prop client ''id'') NoValidPregnancies] \<and>
           skippedClientsCount res' = skippedClientsCount results + 1 \<and>
           successCount res' = successCount results) \<and>
        (filter pregnancy_valid (pregnancies_of client) \<noteq> [] \<longrightarrow>
           (\<exists>filteredClient fps.
              out' = outputData @ [filteredClient] \<and>
              map_err filterPregnancy (filter pregnancy_valid (pregnancies_of client)) = Inr fps \<and>
              get_prop filteredClient ''pregnancies'' = Some (JArr fps) \<and>
              get_prop filteredClient ''id'' = get_prop client ''id'' \<and>
              successCount res' = successCount results + 1 \<and>
              skippedClients res' = skippedClients results \<and>
              skippedClientsCount res' = skippedClientsCount results))) \<and>
   (\<forall>ps.
      validateClient_salvage client = Valid \<and>
      get_prop client ''pregnancies'' = Some (JArr ps) \<and>
      (\<forall>p \<in> set ps. p \<noteq> JNull) \<and>
      (\<forall>p \<in> set ps. pregnancy_valid p \<longrightarrow> entities_present p) \<longrightarrow>
        (\<exists>out' res'. process_client_salvage client (outputData, results) = Inr (out', res')))"
proof (intro conjI allI impI)
  fix p
  show "pregnancy_valid p \<longleftrightarrow>
           isValidValue (opt_prop (Some p) ''birth'') True \<and>
           isValidValue (opt_prop (Some p) ''cares_after'') True \<and>
           isValidValue (opt_prop (Some p) ''cares_after_phone'') True \<and>
           (\<forall>birth. opt_prop (Some p) ''birth'' = Some birth \<and> truthy birth \<longrightarrow>
              isValidValue (opt_prop (Some birth) ''children'') True)"
    unfolding pregnancy_valid_def by (rule validatePregnancy_valid_iff)
next
  fix p assume "\<not> pregnancy_valid p"
  then have "validatePregnancy p \<noteq> Inr Valid" by (simp add: pregnancy_valid_def)
  then obtain reason where r: "validatePregnancy p = Inr (Invalid reason)"
    by (cases p rule: validatePregnancy_cases) simp_all
  then show "\<exists>reason. validatePregnancy p = Inr (Invalid reason) \<and>
               skip_entry client p =
                 SkippedPregnancy (get_prop client ''id'') (get_prop p ''id'') reason"
    by (simp add: skip_entry_def)
next
  fix out' res'
  assume a: "validateClient_salvage client = Valid \<and>
      process_client_salvage client (outputData, results) = Inr (out', res')"
  note f = salvage_client_returned[OF a[THEN conjunct1] a[THEN conjunct2]]
  from f show "skippedPregnancies res' =
          skippedPregnancies results @
            map (skip_entry client)
              (filter (\<lambda>p. \<not> pregnancy_valid p) (pregnancies_of client))" by simp
  from f show "skippedPregnanciesCount res' =
          skippedPregnanciesCount results +
            length (filter (\<lambda>p. \<not> pregnancy_valid p) (pregnancies_of client))" by simp
  {
    assume e: "filter pregnancy_valid (pregnancies_of client) = []"
    from f e show "out' = outputData" by simp
    from f e show "skippedClients res' =
             skippedClients results @
               [SkippedClient (get_prop client ''id'') NoValidPregnancies]" by simp
    from f e show "skippedClientsCount res' = skippedClientsCount results + 1"
      by simp
    from f e show "successCount res' = successCount results" by simp
  }
  {
    assume e: "filter pregnancy_valid (pregnancies_of client) \<noteq> []"
    from f e show "\<exists>filteredClient fps.
              out' = outputData @ [filteredClient] \<and>
              map_err filterPregnancy (filter pregnancy_valid (pregnancies_of client)) = Inr fps \<and>
              get_prop filteredClient ''pregnancies'' = Some (JArr fps) \<and>
              get_prop filteredClient ''id'' = get_prop client ''id'' \<and>
              successCount res' = successCount results + 1 \<and>
              skippedClients res' = skippedClients results \<and>
              skippedClientsCount res' = skippedClientsCount results" by simp
  }
next
  fix ps
  assume a: "validateClient_salvage client = Valid \<and>
      get_prop client ''pregnancies'' = Some (JArr ps) \<and>
      (\<forall>p \<in> set ps. p \<noteq> JNull) \<and>
      (\<forall>p \<in> set ps. pregnancy_valid p \<longrightarrow> entities_present p)"
  then have "validateClient_salvage client = Valid"
    and "get_prop client ''pregnancies'' = Some (JArr ps)"
    and "\<forall>p \<in> set ps. p \<noteq> JNull"
    and "\<forall>p \<in> set ps. pregnancy_valid p \<longrightarrow> entities_present p"
    by blast+
  then show "\<exists>out' res'. process_client_salvage client (outputData, results) = Inr (out', res')"
    by (rule salvage_client_returns)
qed

lemma salvage_client_records_example:
  "validateClient_salvage example_two_pregnancies = Valid \<and>
   \<not> pregnancy_valid example_incomplete \<and> pregnancy_valid example_complete \<and>
   (\<exists>out' res'.
      process_client_salvage example_two_pregnancies ([], initial_results) = Inr (out', res') \<and>
      skippedPregnancies res' =
        [SkippedPregnancy (Some (JNum 7)) (Some (JNum 70)) (MissingPregnancyField ''cares_after'')] \<and>
      skippedPregnanciesCount res' = 1 \<and>
      (\<exists>filteredClient fps.
         out' = [filteredClient] \<and>
         map_err filterPregnancy [example_complete] = Inr fps \<and>
         get_prop filteredClient ''pregnancies'' = Some (JArr fps) \<and>
         get_prop filteredClient ''id'' = Some (JNum 7) \<and>
         successCount res' = 1 \<and> skippedClients res' = [] \<and>
         skippedClientsCount res' = 0))"
proof -
  have h1: "validateClient_salvage example_two_pregnancies = Valid"
    unfolding example_two_pregnancies_def example_incomplete_def example_complete_def
    by code_simp
  have h2: "get_prop example_two_pregnancies ''pregnancies''
      = Some (JArr [example_incomplete, example_complete])"
    by (simp add: example_two_pregnancies_def)
  have h3: "\<forall>p \<in> set [example_incomplete, example_complete]. p \<noteq> JNull"
    by (simp add: example_incomplete_def example_complete_def)
  have v1: "\<not> pregnancy_valid example_incomplete"
    unfolding example_incomplete_def by code_simp
  have v2: "pregnancy_valid example_complete"
    unfolding example_complete_def by code_simp
  have e2: "entities_present example_complete"
    unfolding example_complete_def by code_simp
  have h4: "\<forall>p \<in> set [example_incomplete, example_complete].
      pregnancy_valid p \<longrightarrow> entities_present p"
    using v1 e2 by simp
  have s1: "skip_entry example_two_pregnancies example_incomplete
      = SkippedPregnancy (Some (JNum 7)) (Some (JNum 70)) (MissingPregnancyField ''cares_after'')"
    unfolding example_two_pregnancies_def example_incomplete_def example_complete_def
    by code_simp
  have i: "get_prop example_two_pregnancies ''id'' = Some (JNum 7)"
    by (simp add: example_two_pregnancies_def)
  have po: "pregnancies_of example_two_pregnancies = [example_incomplete, example_complete]"
    by (simp add: pregnancies_of_def h2)
  note c = salvage_client_records[of example_two_pregnancies "[]" initial_results]
  from c[THEN conjunct2, THEN conjunct2, THEN conjunct2, rule_format,
      of "[example_incomplete, example_complete]"] h1 h2 h3 h4
  obtain out' res' where
    r: "process_client_salvage example_two_pregnancies ([], initial_results) = Inr (out', res')"
    by blast
  from c[THEN conjunct2, THEN conjunct2, THEN conjunct1, rule_format, of out' res'] h1 r
  have f: "skippedPregnancies res' =
          skippedPregnancies initial_results @
            map (skip_entry example_two_pregnancies)
              (filter (\<lambda>p. \<not> pregnancy_valid p) (pregnancies_of example_two_pregnancies)) \<and>
        skippedPregnanciesCount res' =
          skippedPregnanciesCount initial_results +
            length (filter (\<lambda>p. \<not> pregnancy_valid p) (pregnancies_of example_two_pregnancies)) \<and>
        (filter pregnancy_valid (pregnancies_of example_two_pregnancies) = [] \<longrightarrow>
           out' = [] \<and>
           skippedClients res' =
             skippedClients initial_results @
               [SkippedClient (get_prop example_two_pregnancies ''id'') NoValidPregnancies] \<and>
           skippedClientsCount res' = skippedClientsCount initial_results + 1 \<and>
           successCount res' = successCount initial_results) \<and>
        (filter pregnancy_valid (pregnancies_of example_two_pregnancies) \<noteq> [] \<longrightarrow>
           (\<exists>filteredClient fps.
              out' = [] @ [filteredClient] \<and>
              map_err filterPregnancy (filter pregnancy_valid (pregnancies_of example_two_pregnancies)) = Inr fps \<and>
              get_prop filteredClient ''pregnancies'' = Some (JArr fps) \<and>
              get_prop filteredClient ''id'' = get_prop example_two_pregnancies ''id'' \<and>
              successCount res' = successCount initial_results + 1 \<and>
              skippedClients res' = skippedClients initial_results \<and>
              skippedClientsCount res' = skippedClientsCount initial_results))"
    by simp
  from f have "skippedPregnancies res' =
        [SkippedPregnancy (Some (JNum 7)) (Some (JNum 70)) (MissingPregnancyField ''cares_after'')] \<and>
      skippedPregnanciesCount res' = 1 \<and>
      (\<exists>filteredClient fps.
         out' = [filteredClient] \<and>
         map_err filterPregnancy [example_complete] = Inr fps \<and>
         get_prop filteredClient ''pregnancies'' = Some (JArr fps) \<and>
         get_prop filteredClient ''id'' = Some (JNum 7) \<and>
         successCount res' = 1 \<and> skippedClients res' = [] \<and>
         skippedClientsCount res' = 0)"
    unfolding po by (simp add: v1 v2 s1 i initial_results_def)
  with r have "\<exists>out' res'.
      process_client_salvage example_two_pregnancies ([], initial_results) = Inr (out', res') \<and>
      skippedPregnancies res' =
        [SkippedPregnancy (Some (JNum 7)) (Some (JNum 70)) (MissingPregnancyField ''cares_after'')] \<and>
      skippedPregnanciesCount res' = 1 \<and>
      (\<exists>filteredClient fps.
         out' = [filteredClient] \<and>
         map_err filterPregnancy [example_complete] = Inr fps \<and>
         get_prop filteredClient ''pregnancies'' = Some (JArr fps) \<and>
         get_prop filteredClient ''id'' = Some (JNum 7) \<and>
         successCount res' = 1 \<and> skippedClients res' = [] \<and>
         skippedClientsCount res' = 0)"
    by (intro exI[of _ out'] exI[of _ res'] conjI) simp_all
  with h1 v1 v2 show ?thesis by (intro conjI)
qed

text \<open>
  Claim C1. In salvage mode every pregnancy of a client that passes the client-level check
  is to be validated on its own, and one that fails is to be left out and recorded with the
  client id, the pregnancy id and the reason; a client left without pregnancies is to be
  recorded as skipped. The code does not do this for a pregnancy that is \<^verbatim>\<open>null\<close>: the
  client \<^verbatim>\<open>{ id: 9, pregnancies: [null] }\<close> passes the client-level check and
  \<open>validatePregnancy\<close>, which reads its argument with \<^verbatim>\<open>?.\<close>, finds the pregnancy invalid
  for its missing \<^verbatim>\<open>birth\<close>; the entry is then built from \<^verbatim>\<open>pregnancy.id\<close>, which throws, so
  the run ends with nothing recorded and no output. A client whose \<^verbatim>\<open>pregnancies\<close> is a plain
  object passes the client-level check too, and the loop over it throws.
\<close>

theorem salvage_null_pregnancy:
  "validateClient_salvage example_null_pregnancy = Valid \<and>
   get_prop example_null_pregnancy ''pregnancies'' = Some (JArr [JNull]) \<and>
   validatePregnancy JNull = Inr (Invalid (MissingPregnancyField ''birth'')) \<and>
   read_prop JNull ''id'' = Inl TypeError \<and>
   process_client_salvage example_null_pregnancy ([], initial_results) = Inl TypeError \<and>
   processData_salvage (JArr [example_null_pregnancy]) = Inl TypeError \<and>
   validateClient_salvage example_object_pregnancies = Valid \<and>
   processData_salvage (JArr [example_object_pregnancies]) = Inl TypeError"
proof -
  have 1: "validateClient_salvage example_null_pregnancy = Valid"
    unfolding example_null_pregnancy_def by code_simp
  have 2: "get_prop example_null_pregnancy ''pregnancies'' = Some (JArr [JNull])"
    by (simp add: example_null_pregnancy_def)
  have 3: "validatePregnancy JNull = Inr (Invalid (MissingPregnancyField ''birth''))"
    by (rule validatePregnancy_null)
  have 4: "read_prop JNull ''id'' = Inl TypeError" by (simp add: read_prop_def)
  have 5: "process_client_salvage example_null_pregnancy ([], initial_results) = Inl TypeError"
    unfolding example_null_pregnancy_def by code_simp
  have 6: "processData_salvage (JArr [example_null_pregnancy]) = Inl TypeError"
    unfolding example_null_pregnancy_def by code_simp
  have 7: "validateClient_salvage example_object_pregnancies = Valid"
    unfolding example_object_pregnancies_def by code_simp
  have 8: "processData_salvage (JArr [example_object_pregnancies]) = Inl TypeError"
    unfolding example_object_pregnancies_def by code_simp
  from 1 2 3 4 5 6 7 8 show ?thesis by (intro conjI)
qed

section \<open>Conservation\<close>

























section \<open>The input is not written to\<close>

lemma heap_of_simps [simp]: "heap_of (Inl (e, h)) = h" "heap_of (Inr (x, h)) = h"
  by (simp_all add: heap_of_def)

lemma unchanged_refl: "unchanged n h h"
  by (simp add: unchanged_def)

lemma unchanged_trans:
  assumes "unchanged n h h1" and "unchanged n h1 h2"
  shows "unchanged n h h2"
  using assms by (simp add: unchanged_def)

lemma unchanged_length:
  assumes "unchanged n h h'" and "n \<le> length h"
  shows "n \<le> length h'"
  using assms by (simp add: unchanged_def)

lemma seq_frame:
  assumes "n \<le> length h" and "unchanged n h (heap_of m)"
    and "\<And>x h1. m = Inr (x, h1) \<Longrightarrow> n \<le> length h1 \<Longrightarrow> unchanged n h1 (heap_of (k x h1))"
  shows "unchanged n h (heap_of (case m of Inl eh \<Rightarrow> Inl eh | Inr (x, h1) \<Rightarrow> k x h1))"
proof (cases m)
  case (Inl eh)
  obtain e h0 where "eh = (e, h0)" by (cases eh)
  with Inl assms(2) show ?thesis by simp
next
  case (Inr p)
  obtain x h1 where p: "p = (x, h1)" by (cases p)
  from assms(2) Inr p have u: "unchanged n h h1" by simp
  then have "n \<le> length h1" using assms(1) by (rule unchanged_length)
  with assms(3) Inr p have "unchanged n h1 (heap_of (k x h1))" by simp
  with u have "unchanged n h (heap_of (k x h1))" by (rule unchanged_trans)
  with Inr p show ?thesis by simp
qed

lemma write_prop_unchanged:
  assumes "n \<le> a"
  shows "unchanged n h (write_prop a key v h)"
  using assms
  by (simp add: unchanged_def write_prop_def split: option.splits hobj.splits)

lemma set_prop_h_unchanged:
  assumes "fresh n w"
  shows "unchanged n h (set_prop_h w key v h)"
  using assms by (cases w) (simp_all add: write_prop_unchanged unchanged_refl)

lemma push_h_unchanged:
  assumes "fresh n w"
  shows "unchanged n h (push_h w v h)"
  using assms
  by (cases w) (simp_all add: unchanged_def split: option.splits hobj.splits)

lemma alloc_unchanged:
  assumes "n \<le> length h"
  shows "unchanged n h (alloc ob h)" and "fresh n (next_ref h)"
  using assms by (simp_all add: alloc_def next_ref_def unchanged_def)

lemma not_object_fresh:
  assumes "\<not> truthy_h v \<or> \<not> typeof_object_h v"
  shows "fresh n v"
  using assms by (cases v) simp_all

lemma pick_loop_h_unchanged:
  assumes "fresh n r"
  shows "unchanged n h (pick_loop_h h obj keys r)"
proof (induction keys arbitrary: h)
  case Nil
  show ?case by (simp add: unchanged_refl)
next
  case (Cons key keys)
  define h1 where
    "h1 = (case get_prop_h h obj key of Some v \<Rightarrow> set_prop_h r key v h | None \<Rightarrow> h)"
  have "unchanged n h h1"
    unfolding h1_def using assms
    by (simp add: set_prop_h_unchanged unchanged_refl split: option.splits)
  moreover have "unchanged n h1 (pick_loop_h h1 obj keys r)" by (rule Cons.IH)
  ultimately have "unchanged n h (pick_loop_h h1 obj keys r)" by (rule unchanged_trans)
  then show ?case by (simp add: h1_def)
qed

lemma pickProperties_h_frame:
  assumes "n \<le> length h" and "pickProperties_h obj keys h = (r, h')"
  shows "unchanged n h h'" and "fresh n r"
proof -
  show "fresh n r"
    using assms not_object_fresh[of obj n]
    by (auto simp: pickProperties_h_def next_ref_def split: if_splits)
  show "unchanged n h h'"
  proof (cases "\<not> truthy_h obj \<or> \<not> typeof_object_h obj")
    case True
    then show ?thesis using assms(2) by (auto simp: pickProperties_h_def unchanged_refl)
  next
    case False
    then have e: "h' = pick_loop_h (alloc (HObject []) h) obj keys (next_ref h)"
      using assms(2) by (auto simp: pickProperties_h_def)
    have "unchanged n h (alloc (HObject []) h)" using assms(1) by (rule alloc_unchanged)
    moreover have "unchanged n (alloc (HObject []) h) h'"
      unfolding e by (rule pick_loop_h_unchanged) (rule alloc_unchanged(2)[OF assms(1)])
    ultimately show ?thesis by (rule unchanged_trans)
  qed
qed

lemma encr_loop_h_unchanged:
  assumes "fresh n r"
  shows "unchanged n h (encr_loop_h h d al ps keys r)"
proof (induction keys arbitrary: h)
  case Nil
  show ?case by (simp add: unchanged_refl)
next
  case (Cons key keys)
  define h1 where
    "h1 = (if key \<in> set al then
          (case get_prop_h h d key of
             Some v \<Rightarrow> set_prop_h r key v h | None \<Rightarrow> h)
        else if (case ps of
                   None \<Rightarrow> False
                 | Some ps \<Rightarrow> list_ex (\<lambda>pattern. matchesDynamicPattern key pattern) ps) then
          (case get_prop_h h d key of
             Some v \<Rightarrow> set_prop_h r key v h | None \<Rightarrow> h)
        else h)"
  have "unchanged n h h1"
    unfolding h1_def using assms
    by (simp add: set_prop_h_unchanged unchanged_refl split: option.splits)
  moreover have "unchanged n h1 (encr_loop_h h1 d al ps keys r)" by (rule Cons.IH)
  ultimately have "unchanged n h (encr_loop_h h1 d al ps keys r)" by (rule unchanged_trans)
  then show ?case by (simp add: h1_def)
qed

lemma filterDataEncr_h_frame:
  assumes "n \<le> length h" and "filterDataEncr_h d al ps h = (r, h')"
  shows "unchanged n h h'" and "fresh n r"
proof -
  show "fresh n r"
    using assms not_object_fresh[of d n]
    by (auto simp: filterDataEncr_h_def next_ref_def split: if_splits)
  show "unchanged n h h'"
  proof (cases "\<not> truthy_h d \<or> \<not> typeof_object_h d")
    case True
    then show ?thesis using assms(2) by (auto simp: filterDataEncr_h_def unchanged_refl)
  next
    case False
    then have e: "h' = encr_loop_h (alloc (HObject []) h) d al ps (map fst (own_props_h h d))
                    (next_ref h)"
      using assms(2) by (auto simp: filterDataEncr_h_def)
    have "unchanged n h (alloc (HObject []) h)" using assms(1) by (rule alloc_unchanged)
    moreover have "unchanged n (alloc (HObject []) h) h'"
      unfolding e by (rule encr_loop_h_unchanged) (rule alloc_unchanged(2)[OF assms(1)])
    ultimately show ?thesis by (rule unchanged_trans)
  qed
qed

subsection \<open>The statements of a filter body\<close>

lemma filter_data_encr_field_h_result:
  assumes "filter_data_encr_field_h al ps filtered h = Inr (r, h')"
  shows "r = filtered"
  using assms
  by (auto simp: filter_data_encr_field_h_def
      split: sum.splits option.splits if_splits prod.splits)

lemma filter_data_encr_field_h_frame:
  assumes "n \<le> length h" and "fresh n filtered"
  shows "unchanged n h (heap_of (filter_data_encr_field_h al ps filtered h))"
proof (cases "\<exists>d. read_prop_h h filtered ''data_encr'' = Inr (Some d) \<and> truthy_h d")
  case False
  then have "heap_of (filter_data_encr_field_h al ps filtered h) = h"
    by (auto simp: filter_data_encr_field_h_def split: sum.splits option.splits)
  then show ?thesis by (simp add: unchanged_refl)
next
  case True
  then obtain d where d: "read_prop_h h filtered ''data_encr'' = Inr (Some d)" "truthy_h d"
    by blast
  obtain d' h1 where f: "filterDataEncr_h d al ps h = (d', h1)"
    by (cases "filterDataEncr_h d al ps h")
  have e: "heap_of (filter_data_encr_field_h al ps filtered h)
      = set_prop_h filtered ''data_encr'' d' h1"
    using d f by (simp add: filter_data_encr_field_h_def)
  have "unchanged n h h1" using assms(1) f by (rule filterDataEncr_h_frame)
  moreover have "unchanged n h1 (set_prop_h filtered ''data_encr'' d' h1)"
    using assms(2) by (rule set_prop_h_unchanged)
  ultimately show ?thesis unfolding e by (rule unchanged_trans)
qed

lemma framesD:
  assumes "frames f" and "n \<le> length h"
  shows "unchanged n h (heap_of (f v h))" and "f v h = Inr (r, h') \<Longrightarrow> fresh n r"
  using assms unfolding frames_def by blast+

lemma framesI:
  assumes "\<And>n v h. n \<le> length h \<Longrightarrow> unchanged n h (heap_of (f v h))"
    and "\<And>n v h r h'. n \<le> length h \<Longrightarrow> f v h = Inr (r, h') \<Longrightarrow> fresh n r"
  shows "frames f"
  using assms unfolding frames_def by blast

lemma map_err_h_frame:
  assumes "frames f" and "n \<le> length h"
  shows "unchanged n h (heap_of (map_err_h f xs h))"
  using assms(2)
proof (induction xs arbitrary: h)
  case Nil
  then show ?case by (simp add: unchanged_refl)
next
  case (Cons x xs)
  have "unchanged n h (heap_of (case f x h of
        Inl eh \<Rightarrow> Inl eh
      | Inr (y, h1) \<Rightarrow>
          (case map_err_h f xs h1 of Inl eh \<Rightarrow> Inl eh | Inr (ys, h2) \<Rightarrow> Inr (y # ys, h2))))"
  proof (rule seq_frame[OF Cons.prems])
    show "unchanged n h (heap_of (f x h))" using assms(1) Cons.prems by (rule framesD)
  next
    fix y and h1 :: heap assume "n \<le> length h1"
    then have "unchanged n h1 (heap_of (map_err_h f xs h1))" by (rule Cons.IH)
    then show "unchanged n h1 (heap_of (case map_err_h f xs h1 of
        Inl eh \<Rightarrow> Inl eh | Inr (ys, h2) \<Rightarrow> Inr (y # ys, h2)))"
      by (auto split: sum.splits)
  qed
  then show ?case by simp
qed

lemma map_field_h_result:
  assumes "map_field_h key f filtered h = Inr (r, h')"
  shows "r = filtered"
  using assms
  by (auto simp: map_field_h_def
      split: sum.splits option.splits hval.splits hobj.splits prod.splits)

lemma map_field_h_frame:
  assumes "frames f" and "n \<le> length h" and "fresh n filtered"
  shows "unchanged n h (heap_of (map_field_h key f filtered h))"
proof (cases "\<exists>a xs. read_prop_h h filtered key = Inr (Some (HRef a)) \<and> lookup h a = Some (HArray xs)")
  case False
  then have "heap_of (map_field_h key f filtered h) = h"
    by (auto simp: map_field_h_def split: sum.splits option.splits hval.splits hobj.splits)
  then show ?thesis by (simp add: unchanged_refl)
next
  case True
  then obtain a xs where
    r: "read_prop_h h filtered key = Inr (Some (HRef a))" "lookup h a = Some (HArray xs)"
    by blast
  have u: "unchanged n h (heap_of (map_err_h f xs h))"
    using assms(1,2) by (rule map_err_h_frame)
  show ?thesis
  proof (cases "map_err_h f xs h")
    case (Inl eh)
    obtain e h1 where "eh = (e, h1)" by (cases eh)
    with Inl r u show ?thesis by (simp add: map_field_h_def)
  next
    case (Inr p)
    obtain ys h1 where p: "p = (ys, h1)" by (cases p)
    from u Inr p have u1: "unchanged n h h1" by simp
    then have n1: "n \<le> length h1" using assms(2) by (rule unchanged_length)
    have u2: "unchanged n h1 (alloc (HArray ys) h1)" using n1 by (rule alloc_unchanged)
    have u3: "unchanged n (alloc (HArray ys) h1)
        (set_prop_h filtered key (next_ref h1) (alloc (HArray ys) h1))"
      using assms(3) by (rule set_prop_h_unchanged)
    from u1 u2 have "unchanged n h (alloc (HArray ys) h1)" by (rule unchanged_trans)
    then have "unchanged n h (set_prop_h filtered key (next_ref h1) (alloc (HArray ys) h1))"
      using u3 by (rule unchanged_trans)
    with Inr p r show ?thesis by (simp add: map_field_h_def)
  qed
qed

subsection \<open>The filters\<close>

lemma filterCareAfterPhone_h_frames: "frames filterCareAfterPhone_h"
proof (rule framesI)
  fix n v and h :: heap assume n: "n \<le> length h"
  obtain r h' where p: "pickProperties_h v whitelist_careAfterPhone h = (r, h')"
    by (cases "pickProperties_h v whitelist_careAfterPhone h")
  from pickProperties_h_frame(1)[OF n p]
  show "unchanged n h (heap_of (filterCareAfterPhone_h v h))"
    by (simp add: filterCareAfterPhone_h_def p)
next
  fix n v h r h' assume n: "n \<le> length h" and "filterCareAfterPhone_h v h = Inr (r, h')"
  then have "pickProperties_h v whitelist_careAfterPhone h = (r, h')"
    by (simp add: filterCareAfterPhone_h_def)
  with n show "fresh n r" by (rule pickProperties_h_frame)
qed

lemma pick_enc_frame:
  assumes "n \<le> length h"
  shows "unchanged n h (heap_of (case pickProperties_h v wl h of
            (filtered, h1) \<Rightarrow> filter_data_encr_field_h al ps filtered h1))"
    and "(case pickProperties_h v wl h of
            (filtered, h1) \<Rightarrow> filter_data_encr_field_h al ps filtered h1) = Inr (r, h')
          \<Longrightarrow> fresh n r"
proof -
  obtain filtered h1 where p: "pickProperties_h v wl h = (filtered, h1)"
    by (cases "pickProperties_h v wl h")
  have u1: "unchanged n h h1" and fr: "fresh n filtered"
    using assms p by (rule pickProperties_h_frame)+
  have n1: "n \<le> length h1" using u1 assms by (rule unchanged_length)
  then have "unchanged n h1 (heap_of (filter_data_encr_field_h al ps filtered h1))"
    using fr by (rule filter_data_encr_field_h_frame)
  with u1 have "unchanged n h (heap_of (filter_data_encr_field_h al ps filtered h1))"
    by (rule unchanged_trans)
  then show "unchanged n h (heap_of (case pickProperties_h v wl h of
            (filtered, h1) \<Rightarrow> filter_data_encr_field_h al ps filtered h1))"
    by (simp add: p)
  assume "(case pickProperties_h v wl h of
            (filtered, h1) \<Rightarrow> filter_data_encr_field_h al ps filtered h1) = Inr (r, h')"
  then have "filter_data_encr_field_h al ps filtered h1 = Inr (r, h')" by (simp add: p)
  then have "r = filtered" by (rule filter_data_encr_field_h_result)
  with fr show "fresh n r" by simp
qed

lemma filterCareAfter_h_frames: "frames filterCareAfter_h"
  by (rule framesI) (simp_all only: filterCareAfter_h_def pick_enc_frame)

lemma filterChild_h_frames: "frames filterChild_h"
  by (rule framesI) (simp_all only: filterChild_h_def pick_enc_frame)

lemma filterBirth_h_frame:
  assumes n: "n \<le> length h"
  shows "unchanged n h (heap_of (filterBirth_h v h))"
    and "filterBirth_h v h = Inr (r, h') \<Longrightarrow> fresh n r"
proof -
  obtain filtered h1 where p: "pickProperties_h v whitelist_birth h = (filtered, h1)"
    by (cases "pickProperties_h v whitelist_birth h")
  have u1: "unchanged n h h1" and fr: "fresh n filtered"
    using n p by (rule pickProperties_h_frame)+
  have n1: "n \<le> length h1" using u1 n by (rule unchanged_length)
  let ?rest = "case filter_data_encr_field_h dataEncr_birth None filtered h1 of
          Inl eh \<Rightarrow> Inl eh
        | Inr (filtered, h2) \<Rightarrow> map_field_h ''children'' filterChild_h filtered h2"
  have e: "filterBirth_h v h = (if \<not> truthy_h v then Inr (HNull, h) else ?rest)"
    by (simp add: filterBirth_h_def p)
  have "unchanged n h1 (heap_of ?rest)"
  proof (rule seq_frame[OF n1])
    show "unchanged n h1 (heap_of (filter_data_encr_field_h dataEncr_birth None filtered h1))"
      using n1 fr by (rule filter_data_encr_field_h_frame)
  next
    fix x h2
    assume s: "filter_data_encr_field_h dataEncr_birth None filtered h1 = Inr (x, h2)"
      and n2: "n \<le> length h2"
    from s have "x = filtered" by (rule filter_data_encr_field_h_result)
    with fr have "fresh n x" by simp
    with filterChild_h_frames n2
    show "unchanged n h2 (heap_of (map_field_h ''children'' filterChild_h x h2))"
      by (rule map_field_h_frame)
  qed
  with u1 have "unchanged n h (heap_of ?rest)" by (rule unchanged_trans)
  then show "unchanged n h (heap_of (filterBirth_h v h))"
    by (simp add: e unchanged_refl)
  assume a: "filterBirth_h v h = Inr (r, h')"
  show "fresh n r"
  proof (cases "truthy_h v")
    case False
    with a e show ?thesis by simp
  next
    case True
    with a e have r: "?rest = Inr (r, h')" by simp
    then obtain x h2 where
      s: "filter_data_encr_field_h dataEncr_birth None filtered h1 = Inr (x, h2)"
      and m: "map_field_h ''children'' filterChild_h x h2 = Inr (r, h')"
      by (cases "filter_data_encr_field_h dataEncr_birth None filtered h1") auto
    from s have "x = filtered" by (rule filter_data_encr_field_h_result)
    moreover from m have "r = x" by (rule map_field_h_result)
    ultimately show ?thesis using fr by simp
  qed
qed

lemma filterBirth_h_frames: "frames filterBirth_h"
  by (rule framesI) (rule filterBirth_h_frame, assumption)+

lemma birth_field_h_result:
  assumes "birth_field_h filtered h = Inr (r, h')"
  shows "r = filtered"
  using assms
  by (auto simp: birth_field_h_def split: sum.splits option.splits if_splits prod.splits)

lemma birth_field_h_frame:
  assumes "n \<le> length h" and "fresh n filtered"
  shows "unchanged n h (heap_of (birth_field_h filtered h))"
proof (cases "\<exists>b. read_prop_h h filtered ''birth'' = Inr (Some b) \<and> truthy_h b")
  case False
  then have "heap_of (birth_field_h filtered h) = h"
    by (auto simp: birth_field_h_def split: sum.splits option.splits)
  then show ?thesis by (simp add: unchanged_refl)
next
  case True
  then obtain b where b: "read_prop_h h filtered ''birth'' = Inr (Some b)" "truthy_h b"
    by blast
  have u: "unchanged n h (heap_of (filterBirth_h b h))"
    using assms(1) by (rule filterBirth_h_frame)
  show ?thesis
  proof (cases "filterBirth_h b h")
    case (Inl eh)
    obtain e h1 where "eh = (e, h1)" by (cases eh)
    with Inl b u show ?thesis by (simp add: birth_field_h_def)
  next
    case (Inr p)
    obtain b' h1 where p: "p = (b', h1)" by (cases p)
    from u Inr p have u1: "unchanged n h h1" by simp
    have "unchanged n h1 (set_prop_h filtered ''birth'' b' h1)"
      using assms(2) by (rule set_prop_h_unchanged)
    with u1 have "unchanged n h (set_prop_h filtered ''birth'' b' h1)" by (rule unchanged_trans)
    with Inr p b show ?thesis by (simp add: birth_field_h_def)
  qed
qed

lemma filterPregnancy_h_frame:
  assumes n: "n \<le> length h"
  shows "unchanged n h (heap_of (filterPregnancy_h v h))"
    and "filterPregnancy_h v h = Inr (r, h') \<Longrightarrow> fresh n r"
proof -
  obtain filtered h1 where p: "pickProperties_h v whitelist_pregnancy h = (filtered, h1)"
    by (cases "pickProperties_h v whitelist_pregnancy h")
  have u1: "unchanged n h h1" and fr: "fresh n filtered"
    using n p by (rule pickProperties_h_frame)+
  have n1: "n \<le> length h1" using u1 n by (rule unchanged_length)
  let ?s3 = "\<lambda>f h3. case map_field_h ''cares_after'' filterCareAfter_h f h3 of
        Inl eh \<Rightarrow> Inl eh
      | Inr (filtered, h4) \<Rightarrow>
          map_field_h ''cares_after_phone'' filterCareAfterPhone_h filtered h4"
  let ?s2 = "\<lambda>f h2. case birth_field_h f h2 of
        Inl eh \<Rightarrow> Inl eh
      | Inr (filtered, h3) \<Rightarrow> ?s3 filtered h3"
  let ?s1 = "case filter_data_encr_field_h dataEncr_pregnancy None filtered h1 of
        Inl eh \<Rightarrow> Inl eh
      | Inr (filtered, h2) \<Rightarrow> ?s2 filtered h2"
  have e: "filterPregnancy_h v h = ?s1"
    by (simp add: filterPregnancy_h_def p)
  have f3: "unchanged n h3 (heap_of (?s3 filtered h3))" if "n \<le> length h3" for h3
  proof (rule seq_frame[OF that])
    show "unchanged n h3 (heap_of (map_field_h ''cares_after'' filterCareAfter_h filtered h3))"
      using filterCareAfter_h_frames that fr by (rule map_field_h_frame)
  next
    fix x h4
    assume s: "map_field_h ''cares_after'' filterCareAfter_h filtered h3 = Inr (x, h4)"
      and n4: "n \<le> length h4"
    from s have "x = filtered" by (rule map_field_h_result)
    with fr have "fresh n x" by simp
    with filterCareAfterPhone_h_frames n4
    show "unchanged n h4
        (heap_of (map_field_h ''cares_after_phone'' filterCareAfterPhone_h x h4))"
      by (rule map_field_h_frame)
  qed
  have f2: "unchanged n h2 (heap_of (?s2 filtered h2))" if "n \<le> length h2" for h2
  proof (rule seq_frame[OF that])
    show "unchanged n h2 (heap_of (birth_field_h filtered h2))"
      using that fr by (rule birth_field_h_frame)
  next
    fix x h3
    assume s: "birth_field_h filtered h2 = Inr (x, h3)" and n3: "n \<le> length h3"
    from s have "x = filtered" by (rule birth_field_h_result)
    with f3[OF n3] show "unchanged n h3 (heap_of (?s3 x h3))" by simp
  qed
  have "unchanged n h1 (heap_of ?s1)"
  proof (rule seq_frame[OF n1])
    show "unchanged n h1 (heap_of (filter_data_encr_field_h dataEncr_pregnancy None filtered h1))"
      using n1 fr by (rule filter_data_encr_field_h_frame)
  next
    fix x h2
    assume s: "filter_data_encr_field_h dataEncr_pregnancy None filtered h1 = Inr (x, h2)"
      and n2: "n \<le> length h2"
    from s have "x = filtered" by (rule filter_data_encr_field_h_result)
    with f2[OF n2] show "unchanged n h2 (heap_of (?s2 x h2))" by simp
  qed
  with u1 have "unchanged n h (heap_of ?s1)" by (rule unchanged_trans)
  then show "unchanged n h (heap_of (filterPregnancy_h v h))" by (simp only: e)
  assume a: "filterPregnancy_h v h = Inr (r, h')"
  with e have r: "?s1 = Inr (r, h')" by simp
  then obtain x1 h2 where
    s1: "filter_data_encr_field_h dataEncr_pregnancy None filtered h1 = Inr (x1, h2)"
    and r2: "?s2 x1 h2 = Inr (r, h')"
    by (cases "filter_data_encr_field_h dataEncr_pregnancy None filtered h1") auto
  from r2 obtain x2 h3 where
    s2: "birth_field_h x1 h2 = Inr (x2, h3)" and r3: "?s3 x2 h3 = Inr (r, h')"
    by (cases "birth_field_h x1 h2") auto
  from r3 obtain x3 h4 where
    s3: "map_field_h ''cares_after'' filterCareAfter_h x2 h3 = Inr (x3, h4)"
    and s4: "map_field_h ''cares_after_phone'' filterCareAfterPhone_h x3 h4 = Inr (r, h')"
    by (cases "map_field_h ''cares_after'' filterCareAfter_h x2 h3") auto
  from s1 have "x1 = filtered" by (rule filter_data_encr_field_h_result)
  moreover from s2 have "x2 = x1" by (rule birth_field_h_result)
  moreover from s3 have "x3 = x2" by (rule map_field_h_result)
  moreover from s4 have "r = x3" by (rule map_field_h_result)
  ultimately show "fresh n r" using fr by simp
qed

lemma filterPregnancy_h_frames: "frames filterPregnancy_h"
  by (rule framesI) (rule filterPregnancy_h_frame, assumption)+

lemma filterClient_h_frame:
  assumes n: "n \<le> length h"
  shows "unchanged n h (heap_of (filterClient_h v h))"
    and "filterClient_h v h = Inr (r, h') \<Longrightarrow> fresh n r"
proof -
  obtain filtered h1 where p: "pickProperties_h v whitelist_client h = (filtered, h1)"
    by (cases "pickProperties_h v whitelist_client h")
  have u1: "unchanged n h h1" and fr: "fresh n filtered"
    using n p by (rule pickProperties_h_frame)+
  have n1: "n \<le> length h1" using u1 n by (rule unchanged_length)
  have e: "filterClient_h v h = map_field_h ''pregnancies'' filterPregnancy_h filtered h1"
    by (simp add: filterClient_h_def p)
  have "unchanged n h1 (heap_of (map_field_h ''pregnancies'' filterPregnancy_h filtered h1))"
    using filterPregnancy_h_frames n1 fr by (rule map_field_h_frame)
  with u1 show "unchanged n h (heap_of (filterClient_h v h))"
    unfolding e by (rule unchanged_trans)
  assume "filterClient_h v h = Inr (r, h')"
  with e have "map_field_h ''pregnancies'' filterPregnancy_h filtered h1 = Inr (r, h')" by simp
  then have "r = filtered" by (rule map_field_h_result)
  with fr show "fresh n r" by simp
qed

lemma filterClient_h_frames: "frames filterClient_h"
  by (rule framesI) (rule filterClient_h_frame, assumption)+

subsection \<open>The runs\<close>

lemma for_each_frame:
  fixes body :: "'x \<Rightarrow> 'a \<times> heap \<Rightarrow> (error \<times> heap) + ('a \<times> heap)"
  assumes step: "\<And>x a h1. n \<le> length h1 \<Longrightarrow> I a \<Longrightarrow>
      unchanged n h1 (heap_of (body x (a, h1))) \<and>
      (\<forall>a' h2. body x (a, h1) = Inr (a', h2) \<longrightarrow> I a')"
    and "n \<le> length h" and "I a"
  shows "unchanged n h (heap_of (for_each body xs (a, h))) \<and>
      (\<forall>a' h'. for_each body xs (a, h) = Inr (a', h') \<longrightarrow> I a')"
  using assms(2,3)
proof (induction xs arbitrary: a h)
  case Nil
  then show ?case by (simp add: unchanged_refl)
next
  case (Cons x xs)
  note s = step[OF Cons.prems, of x]
  show ?case
  proof (cases "body x (a, h)")
    case (Inl eh)
    obtain e h0 where "eh = (e, h0)" by (cases eh)
    with Inl s show ?thesis by simp
  next
    case (Inr st)
    obtain a1 h1 where st: "st = (a1, h1)" by (cases st)
    from s Inr st have u1: "unchanged n h h1" and i1: "I a1" by simp_all
    from u1 Cons.prems(1) have n1: "n \<le> length h1" by (rule unchanged_length)
    from Cons.IH[OF n1 i1] u1 Inr st show ?thesis
      by (auto intro: unchanged_trans)
  qed
qed

lemma process_client_strict_h_frame:
  assumes "n \<le> length h" and "\<forall>c\<in>set out. fresh n c"
  shows "unchanged n h (heap_of (process_client_strict_h client ((out, res), h))) \<and>
     (\<forall>out' res' h'. process_client_strict_h client ((out, res), h) = Inr ((out', res'), h')
        \<longrightarrow> (\<forall>c\<in>set out'. fresh n c))"
proof (cases "validateClient_strict_h h client")
  case (Inl e)
  then show ?thesis by (simp add: process_client_strict_h_def unchanged_refl)
next
  case (Inr verdict)
  show ?thesis
  proof (cases verdict)
    case (Invalid reason)
    with Inr assms(2) show ?thesis
      by (auto simp: process_client_strict_h_def unchanged_refl split: sum.splits)
  next
    case Valid
    note f = filterClient_h_frame[OF assms(1), of client]
    show ?thesis
    proof (cases "filterClient_h client h")
      case (Inl eh)
      obtain e h0 where "eh = (e, h0)" by (cases eh)
      with Inl Inr Valid f(1) show ?thesis by (simp add: process_client_strict_h_def)
    next
      case r: (Inr p)
      obtain fc h1 where p: "p = (fc, h1)" by (cases p)
      from f(2)[of fc h1] r p have "fresh n fc" by simp
      with r p Inr Valid f(1) assms(2) show ?thesis
        by (simp add: process_client_strict_h_def)
    qed
  qed
qed

lemma processData_strict_h_frame:
  "unchanged (length h) h (heap_of (processData_strict_h inputData h)) \<and>
   (\<forall>out res h'. processData_strict_h inputData h = Inr ((out, res), h') \<longrightarrow>
      (\<forall>c\<in>set out. fresh (length h) c))"
proof (cases "\<exists>a clients. inputData = HRef a \<and> lookup h a = Some (HArray clients)")
  case False
  then have "processData_strict_h inputData h = Inl (ProcessExit, h)"
    by (auto simp: processData_strict_h_def split: hval.splits option.splits hobj.splits)
  then show ?thesis by (simp add: unchanged_refl)
next
  case True
  then obtain a clients where i: "inputData = HRef a" "lookup h a = Some (HArray clients)"
    by blast
  let ?st = "([], initial_results\<lparr>totalClients := length clients\<rparr>)"
  have e: "processData_strict_h inputData h = for_each process_client_strict_h clients (?st, h)"
    using i by (simp add: processData_strict_h_def)
  have "unchanged (length h) h (heap_of (for_each process_client_strict_h clients (?st, h))) \<and>
      (\<forall>a' h'. for_each process_client_strict_h clients (?st, h) = Inr (a', h') \<longrightarrow>
         (\<forall>c\<in>set (fst a'). fresh (length h) c))"
  proof (rule for_each_frame[where I = "\<lambda>a. \<forall>c\<in>set (fst a). fresh (length h) c"])
    fix x and a :: "hval list \<times> results" and h1 :: heap
    assume "length h \<le> length h1" and "\<forall>c\<in>set (fst a). fresh (length h) c"
    then show "unchanged (length h) h1 (heap_of (process_client_strict_h x (a, h1))) \<and>
      (\<forall>a' h2. process_client_strict_h x (a, h1) = Inr (a', h2) \<longrightarrow>
         (\<forall>c\<in>set (fst a'). fresh (length h) c))"
      using process_client_strict_h_frame[of "length h" h1 "fst a" x "snd a"] by simp
  qed simp_all
  then show ?thesis unfolding e by simp
qed

lemma check_pregnancy_h_frame:
  assumes "fresh n vp"
  shows "unchanged n h (heap_of (check_pregnancy_h client vp p (res, h)))"
proof (cases "validatePregnancy_h h p")
  case (Inl e)
  then show ?thesis by (simp add: check_pregnancy_h_def unchanged_refl)
next
  case (Inr verdict)
  then show ?thesis using assms
    by (cases verdict)
      (auto simp: check_pregnancy_h_def unchanged_refl push_h_unchanged split: sum.splits)
qed

lemma pregnancy_loop_h_frame:
  assumes "fresh n vp" and "n \<le> length h"
  shows "unchanged n h (heap_of (for_each (check_pregnancy_h client vp) ps (res, h)))"
proof -
  have "unchanged n h (heap_of (for_each (check_pregnancy_h client vp) ps (res, h))) \<and>
      (\<forall>a' h'. for_each (check_pregnancy_h client vp) ps (res, h) = Inr (a', h') \<longrightarrow> True)"
  proof (rule for_each_frame[where I = "\<lambda>a. True"])
    fix x and a :: results and h1 :: heap
    show "unchanged n h1 (heap_of (check_pregnancy_h client vp x (a, h1))) \<and>
      (\<forall>a' h2. check_pregnancy_h client vp x (a, h1) = Inr (a', h2) \<longrightarrow> True)"
      using check_pregnancy_h_frame[OF assms(1)] by simp
  qed (simp_all add: assms(2))
  then show ?thesis by simp
qed

lemma with_pregnancies_h_frame:
  assumes "n \<le> length h" and "with_pregnancies_h client vp h = (r, h')"
  shows "unchanged n h h'" and "fresh n r" and "r = HRef (length h)"
  using assms by (auto simp: with_pregnancies_h_def alloc_def next_ref_def unchanged_def)

lemma salvage_pregnancies_h_frame:
  assumes n: "n \<le> length h" and vp: "fresh n vp" and out: "\<forall>c\<in>set out. fresh n c"
  shows "unchanged n h (heap_of (salvage_pregnancies_h client vp ((out, res), h))) \<and>
     (\<forall>out' res' h'. salvage_pregnancies_h client vp ((out, res), h) = Inr ((out', res'), h')
        \<longrightarrow> (\<forall>c\<in>set out'. fresh n c))"
proof (cases "\<exists>pregnancies ps. read_prop_h h client ''pregnancies'' = Inr pregnancies \<and>
    iterate_h h pregnancies = Inr ps")
  case False
  then have "\<exists>e. salvage_pregnancies_h client vp ((out, res), h) = Inl (e, h)"
    by (auto simp: salvage_pregnancies_h_def split: sum.splits)
  then show ?thesis by (auto simp: unchanged_refl)
next
  case True
  then obtain pregnancies ps where
    r: "read_prop_h h client ''pregnancies'' = Inr pregnancies"
    and i: "iterate_h h pregnancies = Inr ps"
    by blast
  note l = pregnancy_loop_h_frame[OF vp n, of client ps res]
  show ?thesis
  proof (cases "for_each (check_pregnancy_h client vp) ps (res, h)")
    case (Inl eh)
    obtain e h0 where "eh = (e, h0)" by (cases eh)
    with Inl r i l show ?thesis by (simp add: salvage_pregnancies_h_def)
  next
    case (Inr p)
    obtain res1 h2 where p: "p = (res1, h2)" by (cases p)
    from l Inr p have u2: "unchanged n h h2" by simp
    then have n2: "n \<le> length h2" using n by (rule unchanged_length)
    show ?thesis
    proof (cases "get_prop_h h2 vp ''length'' = Some (HNum 0)")
      case True
      with Inr p r i u2 out show ?thesis
        by (auto simp: salvage_pregnancies_h_def split: sum.splits)
    next
      case False
      obtain c h3 where w: "with_pregnancies_h client vp h2 = (c, h3)"
        by (cases "with_pregnancies_h client vp h2")
      have u3: "unchanged n h2 h3" using n2 w by (rule with_pregnancies_h_frame)
      then have n3: "n \<le> length h3" using n2 by (rule unchanged_length)
      from u2 u3 have u23: "unchanged n h h3" by (rule unchanged_trans)
      note f = filterClient_h_frame[OF n3, of c]
      have e: "salvage_pregnancies_h client vp ((out, res), h) =
          (case filterClient_h c h3 of
             Inl eh \<Rightarrow> Inl eh
           | Inr (filteredClient, h4) \<Rightarrow>
               Inr ((out @ [filteredClient],
                     res1\<lparr>successCount := successCount res1 + 1\<rparr>), h4))"
        using Inr p r i False w by (simp add: salvage_pregnancies_h_def)
      show ?thesis
      proof (cases "filterClient_h c h3")
        case (Inl eh)
        obtain e' h0 where "eh = (e', h0)" by (cases eh)
        with Inl f(1) u23 show ?thesis unfolding e by (auto intro: unchanged_trans)
      next
        case fr: (Inr q)
        obtain fc h4 where q: "q = (fc, h4)" by (cases q)
        from f(2)[of fc h4] fr q have "fresh n fc" by simp
        moreover from f(1) fr q u23 have "unchanged n h h4" by (auto intro: unchanged_trans)
        ultimately show ?thesis unfolding e using fr q out by simp
      qed
    qed
  qed
qed

lemma process_client_salvage_h_frame:
  assumes "n \<le> length h" and "\<forall>c\<in>set out. fresh n c"
  shows "unchanged n h (heap_of (process_client_salvage_h client ((out, res), h))) \<and>
     (\<forall>out' res' h'. process_client_salvage_h client ((out, res), h) = Inr ((out', res'), h')
        \<longrightarrow> (\<forall>c\<in>set out'. fresh n c))"
proof (cases "validateClient_salvage_h h client")
  case (Invalid reason)
  with assms(2) show ?thesis
    by (auto simp: process_client_salvage_h_def unchanged_refl split: sum.splits)
next
  case Valid
  have u: "unchanged n h (alloc (HArray []) h)" and vp: "fresh n (next_ref h)"
    using assms(1) by (rule alloc_unchanged)+
  from u assms(1) have n1: "n \<le> length (alloc (HArray []) h)" by (rule unchanged_length)
  note s = salvage_pregnancies_h_frame[OF n1 vp assms(2), of client res]
  have e: "process_client_salvage_h client ((out, res), h) =
      salvage_pregnancies_h client (next_ref h) ((out, res), alloc (HArray []) h)"
    using Valid by (simp add: process_client_salvage_h_def)
  from s u show ?thesis unfolding e by (auto intro: unchanged_trans)
qed

lemma processData_salvage_h_frame:
  "unchanged (length h) h (heap_of (processData_salvage_h inputData h)) \<and>
   (\<forall>out res h'. processData_salvage_h inputData h = Inr ((out, res), h') \<longrightarrow>
      (\<forall>c\<in>set out. fresh (length h) c))"
proof (cases "\<exists>a clients. inputData = HRef a \<and> lookup h a = Some (HArray clients)")
  case False
  then have "processData_salvage_h inputData h = Inl (ProcessExit, h)"
    by (auto simp: processData_salvage_h_def split: hval.splits option.splits hobj.splits)
  then show ?thesis by (simp add: unchanged_refl)
next
  case True
  then obtain a clients where i: "inputData = HRef a" "lookup h a = Some (HArray clients)"
    by blast
  let ?st = "([], initial_results\<lparr>totalClients := length clients\<rparr>)"
  have e: "processData_salvage_h inputData h = for_each process_client_salvage_h clients (?st, h)"
    using i by (simp add: processData_salvage_h_def)
  have "unchanged (length h) h (heap_of (for_each process_client_salvage_h clients (?st, h))) \<and>
      (\<forall>a' h'. for_each process_client_salvage_h clients (?st, h) = Inr (a', h') \<longrightarrow>
         (\<forall>c\<in>set (fst a'). fresh (length h) c))"
  proof (rule for_each_frame[where I = "\<lambda>a. \<forall>c\<in>set (fst a). fresh (length h) c"])
    fix x and a :: "hval list \<times> results" and h1 :: heap
    assume "length h \<le> length h1" and "\<forall>c\<in>set (fst a). fresh (length h) c"
    then show "unchanged (length h) h1 (heap_of (process_client_salvage_h x (a, h1))) \<and>
      (\<forall>a' h2. process_client_salvage_h x (a, h1) = Inr (a', h2) \<longrightarrow>
         (\<forall>c\<in>set (fst a'). fresh (length h) c))"
      using process_client_salvage_h_frame[of "length h" h1 "fst a" x "snd a"] by simp
  qed simp_all
  then show ?thesis unfolding e by simp
qed

section \<open>Input immutability\<close>

lemma unchanged_prefix:
  assumes "unchanged (length h) h h'"
  shows "take (length h) h' = h"
  using assms by (simp add: unchanged_def)

lemma processData_strict_h_example:
  "processData_strict_h (HRef 0) example_heap_strict =
     Inr (([HRef 7],
           \<lparr>totalClients = 1, successCount = 1, skippedClientsCount = 0, skippedClients = [],
            skippedPregnanciesCount = 0, skippedPregnancies = []\<rparr>),
          example_heap_strict @ example_strict_objects)"
  by code_simp

lemma processData_salvage_h_example:
  "processData_salvage_h (HRef 0) example_heap =
     Inr (([HRef 16],
           \<lparr>totalClients = 1, successCount = 1, skippedClientsCount = 0, skippedClients = [],
            skippedPregnanciesCount = 1,
            skippedPregnancies =
              [SkippedPregnancy (Some (JNum 1)) (Some (JNum 11))
                 (MissingPregnancyField ''birth'')]\<rparr>),
          example_heap @ example_salvage_objects)"
  by code_simp

lemma processData_salvage_h_null:
  "processData_salvage_h (HRef 0) example_heap_null =
     Inl (TypeError, example_heap_null @ [HArray []])"
  by code_simp

lemma processData_strict_h_null:
  "processData_strict_h (HRef 0) example_heap_null = Inl (TypeError, example_heap_null)"
  by code_simp

lemma filterClient_h_example:
  "filterClient_h (HRef 1) example_heap_strict =
     Inr (HRef 7, example_heap_strict @ example_strict_objects)"
  by code_simp

lemma pickProperties_h_example:
  "pickProperties_h (HRef 3) whitelist_pregnancy example_heap =
     (HRef 14,
      example_heap @
        [HObject [(''id'', HNum 10), (''data_encr'', HRef 4), (''birth'', HRef 5),
                  (''cares_after'', HRef 8), (''cares_after_phone'', HRef 11)]])"
  by code_simp

lemma filterDataEncr_h_example:
  "filterDataEncr_h (HRef 10) dataEncr_careAfter (Some careAfterDynamicPatterns) example_heap =
     (HRef 14, example_heap @ [HObject [(''kind-3-nahrung'', HStr ''m'')]])"
  by code_simp

lemma with_pregnancies_h_example:
  "with_pregnancies_h (HRef 1) (HRef 2) example_heap =
     (HRef 14,
      example_heap @
        [HObject [(''id'', HNum 1), (''name'', HStr ''A''), (''pregnancies'', HRef 2)]])"
  by code_simp

lemma pickProperties_h_new:
  "fst (pickProperties_h (HRef a) keys h) = HRef (length h)"
  by (simp add: pickProperties_h_def next_ref_def)

lemma filterDataEncr_h_new:
  "fst (filterDataEncr_h (HRef a) al ps h) = HRef (length h)"
  by (simp add: filterDataEncr_h_def next_ref_def)

lemma denoted_prefix:
  assumes "take (length h) h' = h" and "closed_heap h" and "ref_within (length h) v"
  shows "denoted n h' v = denoted n h v"
  using assms(3)
proof (induction n arbitrary: v)
  case 0
  then show ?case by (cases v) simp_all
next
  case (Suc n)
  show ?case
  proof (cases v)
    case (HRef a)
    with Suc.prems have a: "a < length h" by simp
    from assms(1) have len: "length h \<le> length h'"
      by (metis length_take min.cobounded1 min.commute)
    have "h' ! a = take (length h) h' ! a" using a by simp
    then have same: "h' ! a = h ! a" by (simp only: assms(1))
    from a len same have l: "lookup h' a = lookup h a" by (simp add: lookup_def)
    from a have m: "h ! a \<in> set h" by simp
    from assms(2) have "\<forall>ob \<in> set h. case ob of
          HObject kvs \<Rightarrow> list_all (\<lambda>p. ref_within (length h) (snd p)) kvs
        | HArray xs \<Rightarrow> list_all (ref_within (length h)) xs"
      by (simp add: closed_heap_def list_all_iff)
    note c = bspec[OF this m]
    show ?thesis
    proof (cases "h ! a")
      case (HObject kvs)
      with c have "\<forall>p \<in> set kvs. ref_within (length h) (snd p)"
        by (simp add: list_all_iff)
      then have "map (\<lambda>p. (fst p, denoted n h' (snd p))) kvs
          = map (\<lambda>p. (fst p, denoted n h (snd p))) kvs"
        using Suc.IH by simp
      with HRef l a HObject show ?thesis by (simp add: lookup_def)
    next
      case (HArray xs)
      with c have "\<forall>x \<in> set xs. ref_within (length h) x"
        by (simp add: list_all_iff)
      then have "map (denoted n h') xs = map (denoted n h) xs"
        using Suc.IH by simp
      with HRef l a HArray show ?thesis by (simp add: lookup_def)
    qed
  qed simp_all
qed

lemma closed_example_heap: "closed_heap example_heap"
  by code_simp

lemma ref_within_example: "ref_within (length example_heap) (HRef 0)"
  by code_simp

text \<open>
  Claim C9. No operation of the pipeline writes to an object of its input. Run on a heap
  \<open>h\<close>, each of \<open>processData\<close> (both variants), the six filters, \<open>pickProperties\<close>,
  \<open>filterDataEncr\<close> and the spread \<^verbatim>\<open>{ ...client, pregnancies: validPregnancies }\<close> leaves
  every object of \<open>h\<close> as it was, whether the call returns or throws: the heap it leaves
  begins with \<open>h\<close>, and all it adds are new objects after \<open>h\<close>. What a filter returns is no
  object of \<open>h\<close>: for an object, \<open>pickProperties\<close> and \<open>filterDataEncr\<close> return the object
  they allocate; every client in \<open>outputData\<close> is a new object; and the client the salvage
  variant hands to \<open>filterClient\<close> is a new object, not the input client. So the input
  dataset denotes the same value after a run as before it, to every depth.
\<close>

theorem input_immutability:
  "take (length h) (heap_of (processData_strict_h inputData h)) = h \<and>
   take (length h) (heap_of (processData_salvage_h inputData h)) = h \<and>
   (\<forall>out res h'. processData_strict_h inputData h = Inr ((out, res), h') \<longrightarrow>
      (\<forall>c \<in> set out. fresh (length h) c)) \<and>
   (\<forall>out res h'. processData_salvage_h inputData h = Inr ((out, res), h') \<longrightarrow>
      (\<forall>c \<in> set out. fresh (length h) c)) \<and>
   (\<forall>f \<in> set [filterClient_h, filterPregnancy_h, filterBirth_h, filterChild_h,
                 filterCareAfter_h, filterCareAfterPhone_h].
      take (length h) (heap_of (f v h)) = h \<and>
      (\<forall>r h'. f v h = Inr (r, h') \<longrightarrow> fresh (length h) r)) \<and>
   take (length h) (snd (pickProperties_h v keys h)) = h \<and>
   fresh (length h) (fst (pickProperties_h v keys h)) \<and>
   (\<forall>a. v = HRef a \<longrightarrow> fst (pickProperties_h v keys h) = HRef (length h)) \<and>
   take (length h) (snd (filterDataEncr_h v allowedKeys dynamicPatterns h)) = h \<and>
   fresh (length h) (fst (filterDataEncr_h v allowedKeys dynamicPatterns h)) \<and>
   (\<forall>a. v = HRef a \<longrightarrow>
      fst (filterDataEncr_h v allowedKeys dynamicPatterns h) = HRef (length h)) \<and>
   take (length h) (snd (with_pregnancies_h client validPregnancies h)) = h \<and>
   fst (with_pregnancies_h client validPregnancies h) = HRef (length h) \<and>
   (closed_heap h \<and> ref_within (length h) inputData \<longrightarrow>
      (\<forall>n. denoted n (heap_of (processData_strict_h inputData h)) inputData
             = denoted n h inputData) \<and>
      (\<forall>n. denoted n (heap_of (processData_salvage_h inputData h)) inputData
             = denoted n h inputData))"
proof -
  note s = processData_strict_h_frame[of h inputData]
  note l = processData_salvage_h_frame[of h inputData]
  have 1: "take (length h) (heap_of (processData_strict_h inputData h)) = h"
    using s by (intro unchanged_prefix) simp
  have 2: "take (length h) (heap_of (processData_salvage_h inputData h)) = h"
    using l by (intro unchanged_prefix) simp
  have 3: "\<forall>out res h'. processData_strict_h inputData h = Inr ((out, res), h') \<longrightarrow>
      (\<forall>c \<in> set out. fresh (length h) c)"
    using s by (rule conjunct2)
  have 4: "\<forall>out res h'. processData_salvage_h inputData h = Inr ((out, res), h') \<longrightarrow>
      (\<forall>c \<in> set out. fresh (length h) c)"
    using l by (rule conjunct2)
  have fr: "take (length h) (heap_of (f v h)) = h \<and>
      (\<forall>r h'. f v h = Inr (r, h') \<longrightarrow> fresh (length h) r)" if "frames f" for f
  proof (intro conjI allI impI)
    show "take (length h) (heap_of (f v h)) = h"
      by (rule unchanged_prefix) (rule framesD(1)[OF that], simp)
    fix r h' assume "f v h = Inr (r, h')"
    with that show "fresh (length h) r" by (intro framesD(2)[of f "length h" h v r h']) simp_all
  qed
  have 5: "\<forall>f \<in> set [filterClient_h, filterPregnancy_h, filterBirth_h, filterChild_h,
                 filterCareAfter_h, filterCareAfterPhone_h].
      take (length h) (heap_of (f v h)) = h \<and>
      (\<forall>r h'. f v h = Inr (r, h') \<longrightarrow> fresh (length h) r)"
    using fr[OF filterClient_h_frames] fr[OF filterPregnancy_h_frames] fr[OF filterBirth_h_frames]
      fr[OF filterChild_h_frames] fr[OF filterCareAfter_h_frames]
      fr[OF filterCareAfterPhone_h_frames]
    by simp
  obtain r1 h1 where p: "pickProperties_h v keys h = (r1, h1)"
    by (cases "pickProperties_h v keys h")
  have 6: "take (length h) (snd (pickProperties_h v keys h)) = h"
    using pickProperties_h_frame(1)[OF _ p, of "length h"] by (simp add: p unchanged_prefix)
  have 7: "fresh (length h) (fst (pickProperties_h v keys h))"
    using pickProperties_h_frame(2)[OF _ p, of "length h"] by (simp add: p)
  have 8: "\<forall>a. v = HRef a \<longrightarrow> fst (pickProperties_h v keys h) = HRef (length h)"
    by (simp add: pickProperties_h_new)
  obtain r2 h2 where d: "filterDataEncr_h v allowedKeys dynamicPatterns h = (r2, h2)"
    by (cases "filterDataEncr_h v allowedKeys dynamicPatterns h")
  have 9: "take (length h) (snd (filterDataEncr_h v allowedKeys dynamicPatterns h)) = h"
    using filterDataEncr_h_frame(1)[OF _ d, of "length h"] by (simp add: d unchanged_prefix)
  have 10: "fresh (length h) (fst (filterDataEncr_h v allowedKeys dynamicPatterns h))"
    using filterDataEncr_h_frame(2)[OF _ d, of "length h"] by (simp add: d)
  have 11: "\<forall>a. v = HRef a \<longrightarrow>
      fst (filterDataEncr_h v allowedKeys dynamicPatterns h) = HRef (length h)"
    by (simp add: filterDataEncr_h_new)
  have 12: "take (length h) (snd (with_pregnancies_h client validPregnancies h)) = h"
    by (simp add: with_pregnancies_h_def alloc_def)
  have 13: "fst (with_pregnancies_h client validPregnancies h) = HRef (length h)"
    by (simp add: with_pregnancies_h_def next_ref_def)
  have 14: "closed_heap h \<and> ref_within (length h) inputData \<longrightarrow>
      (\<forall>n. denoted n (heap_of (processData_strict_h inputData h)) inputData
             = denoted n h inputData) \<and>
      (\<forall>n. denoted n (heap_of (processData_salvage_h inputData h)) inputData
             = denoted n h inputData)"
  proof (intro impI conjI allI)
    fix n assume c: "closed_heap h \<and> ref_within (length h) inputData"
    from c show "denoted n (heap_of (processData_strict_h inputData h)) inputData
        = denoted n h inputData"
      by (intro denoted_prefix[OF 1]) simp_all
    from c show "denoted n (heap_of (processData_salvage_h inputData h)) inputData
        = denoted n h inputData"
      by (intro denoted_prefix[OF 2]) simp_all
  qed
  from 1 2 3 4 5 6 7 8 9 10 11 12 13 14 show ?thesis by (intro conjI)
qed

theorem input_immutability_witness:
  "processData_strict_h (HRef 0) example_heap_strict =
     Inr (([HRef 7],
           \<lparr>totalClients = 1, successCount = 1, skippedClientsCount = 0, skippedClients = [],
            skippedPregnanciesCount = 0, skippedPregnancies = []\<rparr>),
          example_heap_strict @ example_strict_objects) \<and>
   take (length example_heap_strict) (example_heap_strict @ example_strict_objects)
     = example_heap_strict \<and>
   fresh (length example_heap_strict) (HRef 7) \<and>
   processData_salvage_h (HRef 0) example_heap =
     Inr (([HRef 16],
           \<lparr>totalClients = 1, successCount = 1, skippedClientsCount = 0, skippedClients = [],
            skippedPregnanciesCount = 1,
            skippedPregnancies =
              [SkippedPregnancy (Some (JNum 1)) (Some (JNum 11))
                 (MissingPregnancyField ''birth'')]\<rparr>),
          example_heap @ example_salvage_objects) \<and>
   take (length example_heap) (example_heap @ example_salvage_objects) = example_heap \<and>
   fresh (length example_heap) (HRef 16) \<and>
   closed_heap example_heap \<and>
   denoted (length example_heap) (example_heap @ example_salvage_objects) (HRef 0)
     = value_of example_heap (HRef 0) \<and>
   processData_salvage_h (HRef 0) example_heap_null =
     Inl (TypeError, example_heap_null @ [HArray []]) \<and>
   take (length example_heap_null) (example_heap_null @ [HArray []]) = example_heap_null \<and>
   filterClient_h (HRef 1) example_heap_strict =
     Inr (HRef 7, example_heap_strict @ example_strict_objects) \<and>
   pickProperties_h (HRef 3) whitelist_pregnancy example_heap =
     (HRef 14,
      example_heap @
        [HObject [(''id'', HNum 10), (''data_encr'', HRef 4), (''birth'', HRef 5),
                  (''cares_after'', HRef 8), (''cares_after_phone'', HRef 11)]]) \<and>
   fst (pickProperties_h (HRef 3) whitelist_pregnancy example_heap)
     = HRef (length example_heap) \<and>
   filterDataEncr_h (HRef 10) dataEncr_careAfter (Some careAfterDynamicPatterns) example_heap =
     (HRef 14, example_heap @ [HObject [(''kind-3-nahrung'', HStr ''m'')]]) \<and>
   fst (filterDataEncr_h (HRef 10) dataEncr_careAfter (Some careAfterDynamicPatterns)
          example_heap)
     = HRef (length example_heap) \<and>
   with_pregnancies_h (HRef 1) (HRef 2) example_heap =
     (HRef 14,
      example_heap @
        [HObject [(''id'', HNum 1), (''name'', HStr ''A''), (''pregnancies'', HRef 2)]])"
proof -
  note s = input_immutability[where h = example_heap_strict and inputData = "HRef 0"
      and v = "HRef 1"]
  note l = input_immutability[where h = example_heap and inputData = "HRef 0"
      and v = "HRef 3" and keys = whitelist_pregnancy]
  note d = input_immutability[where h = example_heap and v = "HRef 10"
      and allowedKeys = dataEncr_careAfter and dynamicPatterns = "Some careAfterDynamicPatterns"]
  note n = input_immutability[where h = example_heap_null and inputData = "HRef 0"]
  note c2 = conjunct2
  from s[THEN conjunct1] have s1:
    "take (length example_heap_strict) (example_heap_strict @ example_strict_objects)
       = example_heap_strict"
    by (simp only: processData_strict_h_example heap_of_simps)
  from s[THEN c2, THEN c2, THEN conjunct1, rule_format,
      OF processData_strict_h_example, of "HRef 7"]
  have s2: "fresh (length example_heap_strict) (HRef 7)" by simp
  from l[THEN c2, THEN conjunct1] have l1:
    "take (length example_heap) (example_heap @ example_salvage_objects) = example_heap"
    by (simp only: processData_salvage_h_example heap_of_simps)
  from l[THEN c2, THEN c2, THEN c2, THEN conjunct1, rule_format,
      OF processData_salvage_h_example, of "HRef 16"]
  have l2: "fresh (length example_heap) (HRef 16)" by simp
  have cr: "closed_heap example_heap \<and> ref_within (length example_heap) (HRef 0)"
    using closed_example_heap ref_within_example by (rule conjI)
  from l[THEN c2, THEN c2, THEN c2, THEN c2, THEN c2, THEN c2, THEN c2, THEN c2, THEN c2,
      THEN c2, THEN c2, THEN c2, THEN c2, THEN mp, OF cr, THEN c2, THEN spec,
      where x = "length example_heap"]
  have l3: "denoted (length example_heap) (example_heap @ example_salvage_objects) (HRef 0)
     = value_of example_heap (HRef 0)"
    by (simp only: processData_salvage_h_example heap_of_simps value_of_def)
  from n[THEN c2, THEN conjunct1] have n1:
    "take (length example_heap_null) (example_heap_null @ [HArray []]) = example_heap_null"
    by (simp only: processData_salvage_h_null heap_of_simps)
  have m: "filterClient_h \<in> set [filterClient_h, filterPregnancy_h, filterBirth_h,
      filterChild_h, filterCareAfter_h, filterCareAfterPhone_h]" by simp
  note f = s[THEN c2, THEN c2, THEN c2, THEN c2, THEN conjunct1, THEN bspec, OF m]
  from f[THEN c2, rule_format, OF filterClient_h_example]
  have f2: "fresh (length example_heap_strict) (HRef 7)" .
  have a3: "HRef 3 = HRef 3" by simp
  from l[THEN c2, THEN c2, THEN c2, THEN c2, THEN c2, THEN c2, THEN c2, THEN conjunct1,
      rule_format, OF a3]
  have p2: "fst (pickProperties_h (HRef 3) whitelist_pregnancy example_heap)
     = HRef (length example_heap)" .
  have a10: "HRef 10 = HRef 10" by simp
  from d[THEN c2, THEN c2, THEN c2, THEN c2, THEN c2, THEN c2, THEN c2, THEN c2, THEN c2,
      THEN c2, THEN conjunct1, rule_format, OF a10]
  have d2: "fst (filterDataEncr_h (HRef 10) dataEncr_careAfter (Some careAfterDynamicPatterns)
          example_heap)
     = HRef (length example_heap)" .
  from processData_strict_h_example s1 s2 processData_salvage_h_example l1 l2
    closed_example_heap l3 processData_salvage_h_null n1 filterClient_h_example
    pickProperties_h_example p2 filterDataEncr_h_example d2 with_pregnancies_h_example
  show ?thesis by (intro conjI)
qed

end
